theory Spec2Isabelle
  imports Main "HOL-Library.AList"
begin

section \<open>Storm.App: the lifecycle coordinator of src/Storm.App.js\<close>

text \<open>
  The module keeps four variables (\<open>_apps\<close>, \<open>_observable\<close>, \<open>_isDocReady\<close>,
  \<open>_lockBarrier\<close>) and every App instance keeps its own fields. The embedding passes one
  record of the module's state through every function. An App is named by its index in
  \<open>_apps\<close>: the registry only grows, so an index names the same instance for ever.

  What the program does to the outside is written to a trace, in the order in which it
  happens: the events an App emits, the callbacks it invokes, the diagnostics it prints and
  the exceptions that leave the module.
\<close>

subsection \<open>Values, callbacks and effects\<close>

datatype jsval = JUndefined | JNull | JBool bool | JNum int | JStr string

type_synonym config = "(string \<times> jsval) list"

datatype exn = TypeError | UserError string

text \<open>
  A callback receives the App's \<open>config\<close> object by reference: it may change it, and it may
  throw, also after changing it. So a call yields the config as the callback left it, and
  whether the callback returned or threw. A callback that calls back into the module while
  it runs is outside the embedding.
\<close>

datatype cb_result = Returns config | Throws exn config

text \<open>
  \<open>setup\<close>, \<open>start\<close> and \<open>end\<close> store whatever they are given, a function or not.
  A function carries a name, by which the trace tells the callbacks apart.
\<close>

datatype callback = Fn string "config \<Rightarrow> cb_result" | NotFn jsval

datatype phase = PSetup | PStart | PEnd

text \<open>
  \<open>Emit i ev payload seen\<close>: App \<open>i\<close> called \<open>this.trigger(ev, payload)\<close>; listeners run
  with the App as context, and \<open>seen\<close> is the value of its \<open>_hasInitialized\<close> that they
  find there. \<open>Called i ph name cfg\<close>: App \<open>i\<close> invoked the function \<open>name\<close> as its setup,
  start or end callback, with the config \<open>cfg\<close> (the end callback also receives the App).
\<close>

datatype effect =
    Emit nat string "config option" bool
  | Called nat phase string config
  | ConsoleError string
  | Uncaught exn

subsection \<open>The state\<close>

text \<open>
  \<open>initialize_ran\<close> and \<open>unload_ran\<close> are the \<open>ran\<close> variables of the two closures that
  \<open>_.once\<close> makes in the constructor (lines 85 and 86).
\<close>

record app =
  config :: config
  setupCalls :: "callback list"
  endCall :: callback
  startCall :: callback
  hasInitialized :: bool
  isIgnited :: bool
  autoStart :: bool
  autoEnd :: bool
  initialize_ran :: bool
  unload_ran :: bool

text \<open>
  \<open>onDocumentReady\<close> and \<open>onWindowUnload\<close> are the listeners of \<open>_observable\<close>: the module
  only ever subscribes the bound \<open>_check\<close> of an App to the first event and the bound
  one-shot \<open>_unload\<close> of an App to the second, so a listener is the index of its App.
\<close>

record world =
  apps :: "app list"
  isDocReady :: bool
  lockBarrier :: int
  onDocumentReady :: "nat list"
  onWindowUnload :: "nat list"
  trace :: "effect list"

definition empty_world :: world where
  "empty_world = \<lparr>apps = [], isDocReady = False, lockBarrier = 0,
     onDocumentReady = [], onWindowUnload = [], trace = []\<rparr>"

text \<open>
  A JavaScript call either returns or throws; the changes it made to the state before
  throwing stay. Both outcomes therefore carry the state.
\<close>

datatype outcome = Normal world | Raised exn world

fun world_of :: "outcome \<Rightarrow> world" where
  "world_of (Normal w) = w"
| "world_of (Raised e w) = w"

fun raised :: "outcome \<Rightarrow> exn option" where
  "raised (Normal w) = None"
| "raised (Raised e w) = Some e"

text \<open>Sequencing of statements: what follows a statement that threw does not run.\<close>

fun seq :: "outcome \<Rightarrow> (world \<Rightarrow> outcome) \<Rightarrow> outcome" where
  "seq (Normal w) f = f w"
| "seq (Raised e w) f = Raised e w"

definition upd_app :: "nat \<Rightarrow> (app \<Rightarrow> app) \<Rightarrow> world \<Rightarrow> world" where
  "upd_app i f w = w\<lparr>apps := (apps w)[i := f (apps w ! i)]\<rparr>"

definition put :: "effect \<Rightarrow> world \<Rightarrow> world" where
  "put e w = w\<lparr>trace := trace w @ [e]\<rparr>"

subsection \<open>The collaborators\<close>

text \<open>
  Modelled from the spec: \<open>Storm.Events\<close> is not part of this source file. The spec asks
  of it that \<open>trigger\<close> dispatches synchronously to the listeners in subscription order.
  For an event of an App the embedding records the call; listeners that applications attach
  to an App are outside the module.
\<close>

definition trigger :: "nat \<Rightarrow> string \<Rightarrow> bool \<Rightarrow> world \<Rightarrow> world" where
  "trigger i ev with_config w =
     put (Emit i ev (if with_config then Some (config (apps w ! i)) else None)
            (hasInitialized (apps w ! i))) w"

text \<open>
  A loop over a list: \<open>_.each\<close> over the Apps, the \<open>for\<close> of \<open>_callSetup\<close>, and the
  dispatch of \<open>document:ready\<close> and \<open>window:unload\<close> to the listeners of \<open>_observable\<close>
  (in subscription order, as the spec asks of \<open>Storm.Events\<close>). One call follows the
  other, and an exception leaves the loop: neither the source nor \<open>_.each\<close> catches one.
\<close>

fun each :: "'a list \<Rightarrow> ('a \<Rightarrow> world \<Rightarrow> outcome) \<Rightarrow> world \<Rightarrow> outcome" where
  "each [] f w = Normal w"
| "each (x # xs) f w = seq (f x w) (each xs f)"

fun truthy :: "jsval \<Rightarrow> bool" where
  "truthy JUndefined = False"
| "truthy JNull = False"
| "truthy (JBool b) = b"
| "truthy (JNum n) = (n \<noteq> 0)"
| "truthy (JStr s) = (s \<noteq> [])"

fun is_truthy :: "callback \<Rightarrow> bool" where
  "is_truthy (Fn n f) = True"
| "is_truthy (NotFn v) = truthy v"

fun isFunction :: "callback \<Rightarrow> bool" where
  "isFunction (Fn n f) = True"
| "isFunction (NotFn v) = False"

text \<open>
  \<open>cb.call(null, this.config)\<close> by App \<open>i\<close>: calling what is not a function throws a
  TypeError before anything is invoked.
\<close>

fun call_cb :: "nat \<Rightarrow> phase \<Rightarrow> callback \<Rightarrow> world \<Rightarrow> outcome" where
  "call_cb i ph (NotFn v) w = Raised TypeError w"
| "call_cb i ph (Fn n f) w =
     (let w1 = put (Called i ph n (config (apps w ! i))) w in
      case f (config (apps w ! i)) of
        Returns c \<Rightarrow> Normal (upd_app i (\<lambda>a. a\<lparr>config := c\<rparr>) w1)
      | Throws e c \<Rightarrow> Raised e (upd_app i (\<lambda>a. a\<lparr>config := c\<rparr>) w1))"

text \<open>The function that \<open>_initialize\<close> puts in place of a missing start callback.\<close>

definition noop :: callback where
  "noop = Fn [] (\<lambda>c. Returns c)"

subsection \<open>The methods of an App\<close>

text \<open>
  Every public method returns the App itself, for chaining; the embedding keeps the state,
  and \<open>Normal\<close> says that the method returned.
\<close>

text \<open>\<open>_callSetup\<close> (lines 238 to 248): the loop, then \<open>setupCalls.length = 0\<close>.\<close>

definition callSetup :: "nat \<Rightarrow> world \<Rightarrow> outcome" where
  "callSetup i w =
     seq (each (setupCalls (apps w ! i)) (\<lambda>cb. call_cb i PSetup cb) w)
       (\<lambda>w'. Normal (upd_app i (\<lambda>a. a\<lparr>setupCalls := []\<rparr>) w'))"

text \<open>\<open>_callStart\<close> (lines 256 to 259).\<close>

definition callStart :: "nat \<Rightarrow> world \<Rightarrow> outcome" where
  "callStart i w =
     seq (call_cb i PStart (startCall (apps w ! i)) w)
       (\<lambda>w'. Normal (upd_app i (\<lambda>a. a\<lparr>startCall := NotFn JNull\<rparr>) w'))"

text \<open>The prototype's \<open>_initialize\<close> (lines 214 to 230).\<close>

definition initialize_body :: "nat \<Rightarrow> world \<Rightarrow> outcome" where
  "initialize_body i w =
     (let w1 = upd_app i (\<lambda>a. a\<lparr>startCall :=
                  (if is_truthy (startCall a) then startCall a else noop)\<rparr>) w;
          w2 = upd_app i (\<lambda>a. a\<lparr>hasInitialized := True\<rparr>) w1;
          w3 = trigger i ''setup:before'' True w2
      in seq (callSetup i w3) (\<lambda>w4.
           let w5 = trigger i ''setup:after'' True w4;
               w6 = trigger i ''start:before'' True w5
           in seq (callStart i w6) (\<lambda>w7.
                Normal (trigger i ''start:after'' True w7))))"

text \<open>
  The instance's \<open>_initialize\<close>, as line 85 replaces it: \<open>_.once\<close> of the prototype's
  function. \<open>_.once\<close> sets its \<open>ran\<close> before it calls the function, so a call that throws
  has used the one shot too.
\<close>

definition initialize :: "nat \<Rightarrow> world \<Rightarrow> outcome" where
  "initialize i w =
     (if initialize_ran (apps w ! i) then Normal w
      else initialize_body i (upd_app i (\<lambda>a. a\<lparr>initialize_ran := True\<rparr>) w))"

text \<open>\<open>_check\<close> (lines 92 to 95).\<close>

definition check :: "nat \<Rightarrow> world \<Rightarrow> outcome" where
  "check i w =
     (if lockBarrier w > 0 then Normal w
      else if isIgnited (apps w ! i) \<or> isDocReady w then initialize i w
      else Normal w)"

text \<open>The prototype's \<open>_unload\<close> (lines 265 to 271).\<close>

definition unload_body :: "nat \<Rightarrow> world \<Rightarrow> outcome" where
  "unload_body i w =
     (if \<not> hasInitialized (apps w ! i) then Normal w
      else seq (if is_truthy (endCall (apps w ! i))
                then call_cb i PEnd (endCall (apps w ! i)) w else Normal w)
             (\<lambda>w'. Normal (trigger i ''end'' False w')))"

text \<open>The instance's \<open>_unload\<close>, as line 86 replaces it.\<close>

definition unload :: "nat \<Rightarrow> world \<Rightarrow> outcome" where
  "unload i w =
     (if unload_ran (apps w ! i) then Normal w
      else unload_body i (upd_app i (\<lambda>a. a\<lparr>unload_ran := True\<rparr>) w))"

text \<open>\<open>_bindAutoStart\<close> (lines 107 to 115) and \<open>_bindAutoEnd\<close> (lines 127 to 130).\<close>

definition bindAutoStart :: "nat \<Rightarrow> world \<Rightarrow> outcome" where
  "bindAutoStart i w =
     (if \<not> autoStart (apps w ! i) then Normal w
      else if isDocReady w then check i w
      else Normal (w\<lparr>onDocumentReady := onDocumentReady w @ [i]\<rparr>))"

definition bindAutoEnd :: "nat \<Rightarrow> world \<Rightarrow> outcome" where
  "bindAutoEnd i w =
     (if \<not> autoEnd (apps w ! i) then Normal w
      else Normal (w\<lparr>onWindowUnload := onWindowUnload w @ [i]\<rparr>))"

text \<open>
  The constructor (lines 45 to 91). \<open>autoStart\<close> and \<open>autoEnd\<close> are read from the
  prototype, which a subclass may override; they are the two arguments.
\<close>

definition fresh_app :: "bool \<Rightarrow> bool \<Rightarrow> app" where
  "fresh_app astart aend =
     \<lparr>config = [], setupCalls = [], endCall = NotFn JNull, startCall = NotFn JNull,
      hasInitialized = False, isIgnited = False, autoStart = astart, autoEnd = aend,
      initialize_ran = False, unload_ran = False\<rparr>"

definition new_app :: "bool \<Rightarrow> bool \<Rightarrow> world \<Rightarrow> outcome" where
  "new_app astart aend w =
     (let i = length (apps w);
          w1 = w\<lparr>apps := apps w @ [fresh_app astart aend]\<rparr>
      in seq (bindAutoStart i w1) (bindAutoEnd i))"

text \<open>
  \<open>configure\<close> (lines 139 to 147): a string key with a value, or an object whose
  properties \<open>_.extend\<close> copies one by one.
\<close>

datatype configure_arg = Key string | Object config

fun extend :: "config \<Rightarrow> config \<Rightarrow> config" where
  "extend c [] = c"
| "extend c ((k, v) # kvs) = extend (AList.update k v c) kvs"

fun configure :: "nat \<Rightarrow> configure_arg \<Rightarrow> jsval \<Rightarrow> world \<Rightarrow> outcome" where
  "configure i (Object obj) v w = Normal (upd_app i (\<lambda>a. a\<lparr>config := extend (config a) obj\<rparr>) w)"
| "configure i (Key k) v w = Normal (upd_app i (\<lambda>a. a\<lparr>config := AList.update k v (config a)\<rparr>) w)"

text \<open>\<open>setup\<close>, \<open>start\<close> and \<open>end\<close> (lines 156 to 182); the names of the first and the last are
  reserved words here.\<close>

definition setup_app :: "nat \<Rightarrow> callback \<Rightarrow> world \<Rightarrow> outcome" where
  "setup_app i func w =
     (let w1 = (if \<not> isFunction func then put (ConsoleError ''Setup must have a function.'') w else w)
      in Normal (upd_app i (\<lambda>a. a\<lparr>setupCalls := setupCalls a @ [func]\<rparr>) w1))"

definition start_app :: "nat \<Rightarrow> callback \<Rightarrow> world \<Rightarrow> outcome" where
  "start_app i func w =
     (let w1 = (if \<not> isFunction func then put (ConsoleError ''Start must have a function.'') w else w)
      in Normal (upd_app i (\<lambda>a. a\<lparr>startCall := func\<rparr>) w1))"

definition end_app :: "nat \<Rightarrow> callback \<Rightarrow> world \<Rightarrow> outcome" where
  "end_app i func w =
     (let w1 = (if \<not> isFunction func then put (ConsoleError ''End must have a function.'') w else w)
      in Normal (upd_app i (\<lambda>a. a\<lparr>endCall := func\<rparr>) w1))"

text \<open>\<open>ignite\<close> (lines 189 to 193).\<close>

definition ignite :: "nat \<Rightarrow> world \<Rightarrow> outcome" where
  "ignite i w = check i (upd_app i (\<lambda>a. a\<lparr>isIgnited := True\<rparr>) w)"

text \<open>
  \<open>smother\<close> (lines 200 to 207). The argument may be missing, and an options object may
  lack \<open>isSilent\<close>: \<open>opts || {}\<close> makes the first case the second.
\<close>

datatype smother_opts = NoOpts | Opts "bool option"

fun isSilent :: "smother_opts \<Rightarrow> bool" where
  "isSilent NoOpts = False"
| "isSilent (Opts None) = False"
| "isSilent (Opts (Some b)) = b"

definition smother :: "nat \<Rightarrow> smother_opts \<Rightarrow> world \<Rightarrow> outcome" where
  "smother i opts w =
     (if \<not> hasInitialized (apps w ! i) then Normal w
      else if \<not> isSilent opts then unload i w
      else Normal w)"

subsection \<open>The functions of the module\<close>

text \<open>\<open>_runChecks\<close> (lines 32 to 36), \<open>App.lock\<close> and \<open>App.unlock\<close> (lines 274 to 281).\<close>

definition runChecks :: "world \<Rightarrow> outcome" where
  "runChecks w = each [0 ..< length (apps w)] check w"

definition lock :: "world \<Rightarrow> outcome" where
  "lock w = Normal (w\<lparr>lockBarrier := lockBarrier w + 1\<rparr>)"

definition unlock :: "world \<Rightarrow> outcome" where
  "unlock w = runChecks (w\<lparr>lockBarrier := lockBarrier w - 1\<rparr>)"

text \<open>The two handlers that the module binds to the document and the window (lines 23 to 30).\<close>

definition document_ready :: "world \<Rightarrow> outcome" where
  "document_ready w = (let w1 = w\<lparr>isDocReady := True\<rparr> in each (onDocumentReady w1) check w1)"

definition window_unload :: "world \<Rightarrow> outcome" where
  "window_unload w = each (onWindowUnload w) unload w"

subsection \<open>Runs\<close>

text \<open>
  What a page can make the module do: construct an App, call a method of an App that
  exists, call \<open>App.lock\<close> or \<open>App.unlock\<close>, or let the document become ready or the window
  announce its unloading. A method call names an App of the registry; on an index beyond
  the registry there is no object to call, and the step does nothing.
\<close>

datatype action =
    NewApp bool bool
  | Configure nat configure_arg jsval
  | Setup nat callback
  | Start nat callback
  | End nat callback
  | Ignite nat
  | Smother nat smother_opts
  | Lock
  | Unlock
  | DocumentReady
  | WindowUnload

definition on_app :: "nat \<Rightarrow> (nat \<Rightarrow> world \<Rightarrow> outcome) \<Rightarrow> world \<Rightarrow> outcome" where
  "on_app i f w = (if i < length (apps w) then f i w else Normal w)"

fun step :: "action \<Rightarrow> world \<Rightarrow> outcome" where
  "step (NewApp astart aend) w = new_app astart aend w"
| "step (Configure i k v) w = on_app i (\<lambda>i. configure i k v) w"
| "step (Setup i func) w = on_app i (\<lambda>i. setup_app i func) w"
| "step (Start i func) w = on_app i (\<lambda>i. start_app i func) w"
| "step (End i func) w = on_app i (\<lambda>i. end_app i func) w"
| "step (Ignite i) w = on_app i ignite w"
| "step (Smother i opts) w = on_app i (\<lambda>i. smother i opts) w"
| "step Lock w = lock w"
| "step Unlock w = unlock w"
| "step DocumentReady w = document_ready w"
| "step WindowUnload w = window_unload w"

text \<open>
  An exception that leaves the module reaches the caller; nothing is undone, and the page
  goes on with the state as the exception left it.
\<close>

fun settle :: "outcome \<Rightarrow> world" where
  "settle (Normal w) = w"
| "settle (Raised e w) = put (Uncaught e) w"

fun run :: "action list \<Rightarrow> world \<Rightarrow> world" where
  "run [] w = w"
| "run (a # as) w = run as (settle (step a w))"

text \<open>
  The last statement of the source constructs the base App \<open>Storm.app\<close> (line 285), so the
  module as a page finds it is \<open>loaded\<close>. The theorems below speak of every state
  \<open>run acts empty_world\<close>, which covers the runs that begin with that construction.
\<close>

definition loaded :: world where
  "loaded = run [NewApp True True] empty_world"

subsection \<open>One App seen alone\<close>

text \<open>
  The transitions of an App read and write that App and the trace only. The functions of
  this section describe them on the App's record alone: they return what is appended to
  the trace, the record afterwards, and the exception if one was thrown. They are proved
  equal to the methods above, and the theorems below use them to say what a method did.

  \<open>run_cbs i ph cbs c\<close>: App \<open>i\<close> calls the callbacks \<open>cbs\<close> one after the other, the first
  with config \<open>c\<close> and each later one with the config its predecessor left, until the list
  ends or a call throws.
\<close>

fun run_cbs :: "nat \<Rightarrow> phase \<Rightarrow> callback list \<Rightarrow> config \<Rightarrow> effect list \<times> config \<times> exn option" where
  "run_cbs i ph [] c = ([], c, None)"
| "run_cbs i ph (NotFn v # cbs) c = ([], c, Some TypeError)"
| "run_cbs i ph (Fn n f # cbs) c =
     (case f c of
        Returns c' \<Rightarrow> (case run_cbs i ph cbs c' of (es, c'', r) \<Rightarrow> (Called i ph n c # es, c'', r))
      | Throws e c' \<Rightarrow> ([Called i ph n c], c', Some e))"

definition lift :: "nat \<Rightarrow> effect list \<times> app \<times> exn option \<Rightarrow> world \<Rightarrow> outcome" where
  "lift i res w =
     (case res of (es, a, r) \<Rightarrow>
        (case r of None \<Rightarrow> Normal (w\<lparr>apps := (apps w)[i := a], trace := trace w @ es\<rparr>)
                 | Some e \<Rightarrow> Raised e (w\<lparr>apps := (apps w)[i := a], trace := trace w @ es\<rparr>)))"

definition init_local :: "nat \<Rightarrow> app \<Rightarrow> effect list \<times> app \<times> exn option" where
  "init_local i a =
     (let a1 = a\<lparr>startCall := (if is_truthy (startCall a) then startCall a else noop),
                 hasInitialized := True\<rparr>;
          e0 = Emit i ''setup:before'' (Some (config a)) True
      in case run_cbs i PSetup (setupCalls a) (config a) of
           (es, c1, Some e) \<Rightarrow> (e0 # es, a1\<lparr>config := c1\<rparr>, Some e)
         | (es, c1, None) \<Rightarrow>
             (let pre = e0 # es @ [Emit i ''setup:after'' (Some c1) True,
                                   Emit i ''start:before'' (Some c1) True]
              in case run_cbs i PStart [startCall a1] c1 of
                   (es2, c2, Some e) \<Rightarrow> (pre @ es2, a1\<lparr>config := c2, setupCalls := []\<rparr>, Some e)
                 | (es2, c2, None) \<Rightarrow>
                     (pre @ es2 @ [Emit i ''start:after'' (Some c2) True],
                      a1\<lparr>config := c2, setupCalls := [], startCall := NotFn JNull\<rparr>, None)))"

definition unload_local :: "nat \<Rightarrow> app \<Rightarrow> effect list \<times> app \<times> exn option" where
  "unload_local i a =
     (if \<not> hasInitialized a then ([], a, None)
      else case (if is_truthy (endCall a) then run_cbs i PEnd [endCall a] (config a)
                 else ([], config a, None)) of
             (es, c, Some e) \<Rightarrow> (es, a\<lparr>config := c\<rparr>, Some e)
           | (es, c, None) \<Rightarrow> (es @ [Emit i ''end'' None True], a\<lparr>config := c\<rparr>, None))"

subsection \<open>Counting in the trace\<close>

text \<open>
  \<open>emitted i ev t\<close>: how often App \<open>i\<close> emitted the event \<open>ev\<close> in the trace \<open>t\<close>;
  \<open>called i ph t\<close>: how often App \<open>i\<close> invoked a setup, start or end callback.
\<close>

fun is_emit :: "nat \<Rightarrow> string \<Rightarrow> effect \<Rightarrow> bool" where
  "is_emit i ev (Emit j n p s) = (j = i \<and> n = ev)"
| "is_emit i ev _ = False"

fun is_call :: "nat \<Rightarrow> phase \<Rightarrow> effect \<Rightarrow> bool" where
  "is_call i ph (Called j q n c) = (j = i \<and> q = ph)"
| "is_call i ph _ = False"

definition emitted :: "nat \<Rightarrow> string \<Rightarrow> effect list \<Rightarrow> nat" where
  "emitted i ev t = length (filter (is_emit i ev) t)"

definition called :: "nat \<Rightarrow> phase \<Rightarrow> effect list \<Rightarrow> nat" where
  "called i ph t = length (filter (is_call i ph) t)"

subsection \<open>The module as a transition system\<close>

text \<open>
  Every action of a run is made of moves of six kinds: an App runs the body of
  \<open>_initialize\<close> and its one shot is used; an App runs the body of \<open>_unload\<close> and its one
  shot is used; a field of an App that neither body guards changes; a variable of the
  module or a listener list changes; an App is constructed; a diagnostic or an uncaught
  exception is written. The proofs show this once for every action and then reason about
  moves.
\<close>

definition quiet :: "app \<Rightarrow> app \<Rightarrow> bool" where
  "quiet a a' \<longleftrightarrow>
     hasInitialized a' = hasInitialized a \<and> initialize_ran a' = initialize_ran a \<and>
     unload_ran a' = unload_ran a \<and> autoStart a' = autoStart a \<and> autoEnd a' = autoEnd a \<and>
     (isIgnited a \<longrightarrow> isIgnited a')"

fun silent :: "effect \<Rightarrow> bool" where
  "silent (ConsoleError s) = True"
| "silent (Uncaught e) = True"
| "silent _ = False"

inductive move :: "world \<Rightarrow> world \<Rightarrow> bool" where
  m_init: "j < length (apps w) \<Longrightarrow> \<not> initialize_ran (apps w ! j) \<Longrightarrow>
     init_local j ((apps w ! j)\<lparr>initialize_ran := True\<rparr>) = (es, a', r) \<Longrightarrow>
     move w (w\<lparr>apps := (apps w)[j := a'], trace := trace w @ es\<rparr>)"
| m_unload: "j < length (apps w) \<Longrightarrow> \<not> unload_ran (apps w ! j) \<Longrightarrow>
     unload_local j ((apps w ! j)\<lparr>unload_ran := True\<rparr>) = (es, a', r) \<Longrightarrow>
     move w (w\<lparr>apps := (apps w)[j := a'], trace := trace w @ es\<rparr>)"
| m_quiet: "j < length (apps w) \<Longrightarrow> quiet (apps w ! j) a' \<Longrightarrow>
     move w (w\<lparr>apps := (apps w)[j := a']\<rparr>)"
| m_env: "\<forall>j \<in> set xs \<union> set ys. j < length (apps w) \<Longrightarrow>
     move w (w\<lparr>isDocReady := b, lockBarrier := n, onDocumentReady := xs, onWindowUnload := ys\<rparr>)"
| m_new: "move w (w\<lparr>apps := apps w @ [fresh_app s e]\<rparr>)"
| m_note: "silent e \<Longrightarrow> move w (put e w)"

abbreviation moves :: "world \<Rightarrow> world \<Rightarrow> bool" where
  "moves \<equiv> move\<^sup>*\<^sup>*"

text \<open>
  What holds of every App in every state a run reaches: \<open>_hasInitialized\<close> is set exactly
  when the one shot of \<open>_initialize\<close> is used; no event was emitted twice; the start and
  the end callback were called at most once; an App whose \<open>_initialize\<close> never ran has
  emitted nothing and called nothing; one whose \<open>_unload\<close> never ran has not ended.
\<close>

definition app_ok :: "nat \<Rightarrow> app \<Rightarrow> effect list \<Rightarrow> bool" where
  "app_ok i a t \<longleftrightarrow>
     hasInitialized a = initialize_ran a \<and>
     (\<forall>ev. emitted i ev t \<le> 1) \<and>
     called i PStart t \<le> 1 \<and> called i PEnd t \<le> 1 \<and>
     (\<not> initialize_ran a \<longrightarrow> (\<forall>ev. emitted i ev t = 0) \<and> (\<forall>ph. called i ph t = 0)) \<and>
     (initialize_ran a \<longrightarrow> emitted i ''setup:before'' t = 1) \<and>
     (\<not> unload_ran a \<longrightarrow> emitted i ''end'' t = 0 \<and> called i PEnd t = 0)"

definition listeners_ok :: "world \<Rightarrow> bool" where
  "listeners_ok w \<longleftrightarrow>
     (\<forall>j \<in> set (onDocumentReady w) \<union> set (onWindowUnload w). j < length (apps w))"

definition inv :: "world \<Rightarrow> bool" where
  "inv w \<longleftrightarrow>
     (\<forall>i < length (apps w). app_ok i (apps w ! i) (trace w)) \<and>
     (\<forall>i \<ge> length (apps w). \<forall>ev ph. emitted i ev (trace w) = 0 \<and> called i ph (trace w) = 0) \<and>
     listeners_ok w"

text \<open>
  What no move takes away from an App: its place in the registry, its \<open>autoStart\<close> and
  \<open>autoEnd\<close>, a flag once set; and, once a one shot is used, the part of the trace that
  only the body behind it writes.
\<close>

definition keeps :: "nat \<Rightarrow> world \<Rightarrow> world \<Rightarrow> bool" where
  "keeps i w w' \<longleftrightarrow>
     i < length (apps w') \<and>
     autoStart (apps w' ! i) = autoStart (apps w ! i) \<and>
     autoEnd (apps w' ! i) = autoEnd (apps w ! i) \<and>
     (hasInitialized (apps w ! i) \<longrightarrow> hasInitialized (apps w' ! i)) \<and>
     (isIgnited (apps w ! i) \<longrightarrow> isIgnited (apps w' ! i)) \<and>
     (initialize_ran (apps w ! i) \<longrightarrow>
        initialize_ran (apps w' ! i) \<and>
        (\<forall>ph. ph \<noteq> PEnd \<longrightarrow> called i ph (trace w') = called i ph (trace w)) \<and>
        (\<forall>ev. ev \<noteq> ''end'' \<longrightarrow> emitted i ev (trace w') = emitted i ev (trace w))) \<and>
     (unload_ran (apps w ! i) \<longrightarrow>
        unload_ran (apps w' ! i) \<and>
        called i PEnd (trace w') = called i PEnd (trace w) \<and>
        emitted i ''end'' (trace w') = emitted i ''end'' (trace w))"

subsection \<open>Reading the trace of a queue\<close>

text \<open>
  \<open>fn_name\<close>: the name under which the trace shows a callback. \<open>config_after\<close>: the config
  that a list of callbacks leaves when called on a given one. \<open>is_console\<close>: the
  diagnostics among the effects.
\<close>

fun fn_name :: "callback \<Rightarrow> string" where
  "fn_name (Fn n f) = n"
| "fn_name (NotFn v) = []"

definition config_after :: "nat \<Rightarrow> phase \<Rightarrow> callback list \<Rightarrow> config \<Rightarrow> config" where
  "config_after i ph cbs c = fst (snd (run_cbs i ph cbs c))"

fun is_console :: "effect \<Rightarrow> bool" where
  "is_console (ConsoleError s) = True"
| "is_console _ = False"

subsection \<open>The listeners of the unload event\<close>

text \<open>
  The constructor subscribes the one-shot \<open>_unload\<close> of every App with \<open>autoEnd\<close> to the
  unload event, and nothing else touches that list: \<open>end_bound\<close> holds in every state a run
  reaches, and \<open>same_end\<close> relates the states before and after any action but a
  construction.
\<close>

definition end_bound :: "world \<Rightarrow> bool" where
  "end_bound w \<longleftrightarrow> (\<forall>i < length (apps w). autoEnd (apps w ! i) \<longrightarrow> i \<in> set (onWindowUnload w))"

definition same_end :: "world \<Rightarrow> world \<Rightarrow> bool" where
  "same_end w w' \<longleftrightarrow>
     length (apps w') = length (apps w) \<and> onWindowUnload w' = onWindowUnload w \<and>
     (\<forall>i. autoEnd (apps w' ! i) = autoEnd (apps w ! i))"

subsection \<open>Pages\<close>

text \<open>
  Callbacks and short runs on which the theorems are instantiated: two setup callbacks that
  each set a key of the config, a start and an end callback that return, a callback that
  changes the config and throws; and the states that a page reaches with them.
\<close>

definition s1 :: callback where
  "s1 = Fn ''s1'' (\<lambda>c. Returns (AList.update ''a'' (JNum 1) c))"

definition s2 :: callback where
  "s2 = Fn ''s2'' (\<lambda>c. Returns (AList.update ''b'' (JNum 2) c))"

definition go :: callback where
  "go = Fn ''go'' (\<lambda>c. Returns c)"

definition bye :: callback where
  "bye = Fn ''bye'' (\<lambda>c. Returns c)"

definition bad :: callback where
  "bad = Fn ''bad'' (\<lambda>c. Throws (UserError ''boom'') (AList.update ''half'' JNull c))"

definition page1 :: world where
  "page1 = run [NewApp True True, Setup 0 s1, Setup 0 s2, Start 0 go] empty_world"

definition page_manual :: world where
  "page_manual = run [NewApp False True, DocumentReady, Lock, Unlock] empty_world"

definition page_started :: world where
  "page_started = run [NewApp True True, End 0 bye, Ignite 0] empty_world"

definition page_ended :: world where
  "page_ended = run [Smother 0 NoOpts] page_started"

definition page_bad_setup :: world where
  "page_bad_setup =
     run [NewApp False True, Setup 0 s1, Setup 0 bad, Setup 0 s2, Start 0 go, DocumentReady] empty_world"

definition page_bad_start :: world where
  "page_bad_start =
     run [NewApp False True, Setup 0 s1, Start 0 bad, DocumentReady] empty_world"

definition page_overunlocked :: world where
  "page_overunlocked = run [NewApp False False, Unlock, Unlock] empty_world"

definition page_unloaded_early :: world where
  "page_unloaded_early = run [NewApp True True, End 0 bye, WindowUnload, Ignite 0] empty_world"

section \<open>Properties\<close>

subsection \<open>The methods, one App at a time\<close>

lemma upd_app_sel [simp]:
  "apps (upd_app i f w) = (apps w)[i := f (apps w ! i)]"
  "isDocReady (upd_app i f w) = isDocReady w"
  "lockBarrier (upd_app i f w) = lockBarrier w"
  "onDocumentReady (upd_app i f w) = onDocumentReady w"
  "onWindowUnload (upd_app i f w) = onWindowUnload w"
  "trace (upd_app i f w) = trace w"
  by (simp_all add: upd_app_def)

lemma put_sel [simp]:
  "apps (put e w) = apps w"
  "isDocReady (put e w) = isDocReady w"
  "lockBarrier (put e w) = lockBarrier w"
  "onDocumentReady (put e w) = onDocumentReady w"
  "onWindowUnload (put e w) = onWindowUnload w"
  "trace (put e w) = trace w @ [e]"
  by (simp_all add: put_def)

lemma each_call_cb:
  "i < length (apps w) \<Longrightarrow>
   each cbs (call_cb i ph) w =
     (case run_cbs i ph cbs (config (apps w ! i)) of (es, c, r) \<Rightarrow>
        lift i (es, (apps w ! i)\<lparr>config := c\<rparr>, r) w)"
proof (induction cbs arbitrary: w)
  case Nil
  then show ?case by (simp add: lift_def)
next
  case (Cons cb cbs)
  show ?case
  proof (cases cb)
    case (NotFn v)
    then show ?thesis using Cons.prems by (simp add: lift_def)
  next
    case (Fn n f)
    show ?thesis
    proof (cases "f (config (apps w ! i))")
      case (Returns c')
      let ?w = "upd_app i (\<lambda>a. a\<lparr>config := c'\<rparr>) (put (Called i ph n (config (apps w ! i))) w)"
      have "i < length (apps ?w)" using Cons.prems by simp
      from Cons.IH [OF this] show ?thesis using Fn Returns Cons.prems
        by (simp add: lift_def upd_app_def put_def split: prod.splits option.splits)
    next
      case (Throws e c')
      then show ?thesis using Fn Cons.prems by (simp add: lift_def upd_app_def put_def)
    qed
  qed
qed

lemma call_cb_single:
  "i < length (apps w) \<Longrightarrow>
   call_cb i ph cb w =
     (case run_cbs i ph [cb] (config (apps w ! i)) of (es, c, r) \<Rightarrow>
        lift i (es, (apps w ! i)\<lparr>config := c\<rparr>, r) w)"
  using each_call_cb [of i w "[cb]" ph]
  by (cases "call_cb i ph cb w") simp_all

lemma lift_simps [simp]:
  "lift i (es, a, None) w = Normal (w\<lparr>apps := (apps w)[i := a], trace := trace w @ es\<rparr>)"
  "lift i (es, a, Some e) w = Raised e (w\<lparr>apps := (apps w)[i := a], trace := trace w @ es\<rparr>)"
  by (simp_all add: lift_def)

lemma callSetup_local:
  assumes "i < length (apps w)"
  shows "callSetup i w =
     (case run_cbs i PSetup (setupCalls (apps w ! i)) (config (apps w ! i)) of
        (es, c, None) \<Rightarrow> lift i (es, (apps w ! i)\<lparr>config := c, setupCalls := []\<rparr>, None) w
      | (es, c, Some e) \<Rightarrow> lift i (es, (apps w ! i)\<lparr>config := c\<rparr>, Some e) w)"
proof -
  obtain es c r where R: "run_cbs i PSetup (setupCalls (apps w ! i)) (config (apps w ! i)) = (es, c, r)"
    by (metis prod_cases3)
  show ?thesis
    using assms R by (cases r) (simp_all add: callSetup_def each_call_cb upd_app_def)
qed

lemma callStart_local:
  assumes "i < length (apps w)"
  shows "callStart i w =
     (case run_cbs i PStart [startCall (apps w ! i)] (config (apps w ! i)) of
        (es, c, None) \<Rightarrow> lift i (es, (apps w ! i)\<lparr>config := c, startCall := NotFn JNull\<rparr>, None) w
      | (es, c, Some e) \<Rightarrow> lift i (es, (apps w ! i)\<lparr>config := c\<rparr>, Some e) w)"
proof -
  obtain es c r where R: "run_cbs i PStart [startCall (apps w ! i)] (config (apps w ! i)) = (es, c, r)"
    by (metis prod_cases3)
  show ?thesis
    using assms R by (cases r) (simp_all add: callStart_def call_cb_single upd_app_def)
qed

lemma initialize_body_local:
  assumes "i < length (apps w)"
  shows "initialize_body i w = lift i (init_local i (apps w ! i)) w"
proof -
  let ?a = "apps w ! i"
  let ?sc = "if is_truthy (startCall ?a) then startCall ?a else noop"
  obtain es c1 r where R: "run_cbs i PSetup (setupCalls ?a) (config ?a) = (es, c1, r)"
    by (metis prod_cases3)
  obtain es2 c2 r2 where R2: "run_cbs i PStart [?sc] c1 = (es2, c2, r2)"
    by (metis prod_cases3)
  show ?thesis
  proof (cases r)
    case (Some e)
    then show ?thesis using assms R
      by (simp add: initialize_body_def callSetup_local init_local_def trigger_def Let_def put_def upd_app_def)
  next
    case None
    show ?thesis
    proof (cases r2)
      case (Some e)
      then show ?thesis using assms R R2 None
        by (simp add: initialize_body_def callSetup_local callStart_local init_local_def
            trigger_def Let_def put_def upd_app_def) (cases "apps w ! i"; simp)
    next
      case N2: None
      then show ?thesis using assms R R2 None
        by (simp add: initialize_body_def callSetup_local callStart_local init_local_def
            trigger_def Let_def put_def upd_app_def) (cases "apps w ! i"; simp)
    qed
  qed
qed

lemma unload_body_local:
  assumes "i < length (apps w)"
  shows "unload_body i w = lift i (unload_local i (apps w ! i)) w"
proof (cases "hasInitialized (apps w ! i)")
  case False
  then show ?thesis using assms by (simp add: unload_body_def unload_local_def)
next
  case True
  show ?thesis
  proof (cases "is_truthy (endCall (apps w ! i))")
    case False
    then show ?thesis using assms True
      by (simp add: unload_body_def unload_local_def trigger_def put_def upd_app_def)
  next
    case T: True
    obtain es c r where R: "run_cbs i PEnd [endCall (apps w ! i)] (config (apps w ! i)) = (es, c, r)"
      by (metis prod_cases3)
    show ?thesis using assms True T R
      by (cases r) (simp_all add: unload_body_def unload_local_def trigger_def call_cb_single put_def upd_app_def)
  qed
qed

subsection \<open>What a transition writes to the trace\<close>

lemma emitted_simps [simp]:
  "emitted i ev [] = 0"
  "emitted i ev (e # t) = (if is_emit i ev e then 1 else 0) + emitted i ev t"
  "emitted i ev (t @ u) = emitted i ev t + emitted i ev u"
  by (simp_all add: emitted_def)

lemma called_simps [simp]:
  "called i ph [] = 0"
  "called i ph (e # t) = (if is_call i ph e then 1 else 0) + called i ph t"
  "called i ph (t @ u) = called i ph t + called i ph u"
  by (simp_all add: called_def)

lemma run_cbs_emitted [simp]: "emitted j ev (fst (run_cbs i ph cbs c)) = 0"
proof (induction cbs arbitrary: c)
  case Nil
  show ?case by simp
next
  case (Cons cb cbs)
  show ?case
  proof (cases cb)
    case (Fn n f)
    then show ?thesis using Cons.IH by (cases "f c") (simp_all split: prod.splits, metis fst_conv)
  qed simp
qed

lemma run_cbs_called_other [simp]:
  "j \<noteq> i \<or> q \<noteq> ph \<Longrightarrow> called j q (fst (run_cbs i ph cbs c)) = 0"
proof (induction cbs arbitrary: c)
  case Nil
  show ?case by simp
next
  case (Cons cb cbs)
  show ?case
  proof (cases cb)
    case (Fn n f)
    then show ?thesis using Cons by (cases "f c") (auto split: prod.splits, (metis fst_conv)+)
  qed simp
qed

lemma run_cbs_called_single: "called j q (fst (run_cbs i ph [cb] c)) \<le> 1"
proof (cases cb)
  case (Fn n f)
  then show ?thesis by (cases "f c") simp_all
qed simp

lemma init_local_app:
  assumes "init_local j a = (es, a', r)"
  shows "hasInitialized a'" "initialize_ran a' = initialize_ran a" "unload_ran a' = unload_ran a"
    "autoStart a' = autoStart a" "autoEnd a' = autoEnd a" "isIgnited a' = isIgnited a"
    "endCall a' = endCall a"
  using assms by (auto simp: init_local_def Let_def split: prod.splits option.splits)

lemma init_local_trace:
  assumes "init_local j a = (es, a', r)"
  shows "emitted j ''setup:before'' es = 1" "emitted j ev es \<le> 1" "emitted j ''end'' es = 0"
    "called j PStart es \<le> 1" "called j PEnd es = 0"
    "k \<noteq> j \<Longrightarrow> emitted k ev es = 0" "k \<noteq> j \<Longrightarrow> called k ph es = 0"
proof -
  let ?sc = "if is_truthy (startCall a) then startCall a else noop"
  obtain es1 c1 r1 where R1: "run_cbs j PSetup (setupCalls a) (config a) = (es1, c1, r1)"
    by (metis prod_cases3)
  obtain es2 c2 r2 where R2: "run_cbs j PStart [?sc] c1 = (es2, c2, r2)"
    by (metis prod_cases3)
  have E1: "emitted k ev es1 = 0" for k ev
    using run_cbs_emitted [of k ev j PSetup "setupCalls a" "config a"] R1 by simp
  have E2: "emitted k ev es2 = 0" for k ev
    using run_cbs_emitted [of k ev j PStart "[?sc]" c1] R2 by simp
  have C1: "k \<noteq> j \<or> q \<noteq> PSetup \<Longrightarrow> called k q es1 = 0" for k q
    using run_cbs_called_other [of k j q PSetup "setupCalls a" "config a"] R1 by simp
  have C2: "k \<noteq> j \<or> q \<noteq> PStart \<Longrightarrow> called k q es2 = 0" for k q
    using run_cbs_called_other [of k j q PStart "[?sc]" c1] R2 by simp
  have C3: "called k q es2 \<le> 1" for k q
    using run_cbs_called_single [of k q j PStart ?sc c1] R2 by simp
  have es: "es = (case r1 of Some e \<Rightarrow> Emit j ''setup:before'' (Some (config a)) True # es1
     | None \<Rightarrow> (case r2 of
          Some e \<Rightarrow> Emit j ''setup:before'' (Some (config a)) True # es1 @
             [Emit j ''setup:after'' (Some c1) True, Emit j ''start:before'' (Some c1) True] @ es2
        | None \<Rightarrow> Emit j ''setup:before'' (Some (config a)) True # es1 @
             [Emit j ''setup:after'' (Some c1) True, Emit j ''start:before'' (Some c1) True] @ es2 @
             [Emit j ''start:after'' (Some c2) True]))"
    using assms R1 R2 by (auto simp: init_local_def Let_def split: option.splits)
  show "emitted j ''setup:before'' es = 1" by (simp add: es E1 E2 split: option.splits)
  show "emitted j ev es \<le> 1" by (auto simp: es E1 E2 split: option.splits)
  show "emitted j ''end'' es = 0" by (simp add: es E1 E2 split: option.splits)
  show "called j PStart es \<le> 1" using C3 [of j PStart] by (simp add: es C1 split: option.splits)
  show "called j PEnd es = 0" by (simp add: es C1 C2 split: option.splits)
  show "k \<noteq> j \<Longrightarrow> emitted k ev es = 0" by (simp add: es E1 E2 split: option.splits)
  show "k \<noteq> j \<Longrightarrow> called k ph es = 0" by (simp add: es C1 C2 split: option.splits)
qed

lemma unload_local_app:
  assumes "unload_local j a = (es, a', r)"
  shows "hasInitialized a' = hasInitialized a" "initialize_ran a' = initialize_ran a"
    "unload_ran a' = unload_ran a" "autoStart a' = autoStart a" "autoEnd a' = autoEnd a"
    "isIgnited a' = isIgnited a" "startCall a' = startCall a" "setupCalls a' = setupCalls a"
    "endCall a' = endCall a"
  using assms by (auto simp: unload_local_def Let_def split: prod.splits option.splits if_splits)

lemma unload_local_trace:
  assumes "unload_local j a = (es, a', r)"
  shows "emitted j ''end'' es \<le> 1" "ev \<noteq> ''end'' \<Longrightarrow> emitted k ev es = 0"
    "called j PEnd es \<le> 1" "ph \<noteq> PEnd \<Longrightarrow> called k ph es = 0"
    "k \<noteq> j \<Longrightarrow> emitted k ev es = 0" "k \<noteq> j \<Longrightarrow> called k ph es = 0"
    "\<not> hasInitialized a \<Longrightarrow> es = []"
proof -
  obtain es1 c1 r1 where R1: "run_cbs j PEnd [endCall a] (config a) = (es1, c1, r1)"
    by (metis prod_cases3)
  have E1: "emitted k ev es1 = 0" for k ev
    using run_cbs_emitted [of k ev j PEnd "[endCall a]" "config a"] R1 by simp
  have C1: "k \<noteq> j \<or> q \<noteq> PEnd \<Longrightarrow> called k q es1 = 0" for k q
    using run_cbs_called_other [of k j q PEnd "[endCall a]" "config a"] R1 by simp
  have C3: "called k q es1 \<le> 1" for k q
    using run_cbs_called_single [of k q j PEnd "endCall a" "config a"] R1 by simp
  have es: "es = (if \<not> hasInitialized a then [] else
      if is_truthy (endCall a) then (case r1 of Some e \<Rightarrow> es1 | None \<Rightarrow> es1 @ [Emit j ''end'' None True])
      else [Emit j ''end'' None True])"
    using assms R1 by (auto simp: unload_local_def Let_def split: option.splits)
  show "emitted j ''end'' es \<le> 1" by (simp add: es E1 split: option.splits)
  show "ev \<noteq> ''end'' \<Longrightarrow> emitted k ev es = 0" by (simp add: es E1 split: option.splits)
  show "called j PEnd es \<le> 1" using C3 [of j PEnd] by (simp add: es split: option.splits)
  show "ph \<noteq> PEnd \<Longrightarrow> called k ph es = 0" by (simp add: es C1 split: option.splits)
  show "k \<noteq> j \<Longrightarrow> emitted k ev es = 0" by (simp add: es E1 split: option.splits)
  show "k \<noteq> j \<Longrightarrow> called k ph es = 0" by (simp add: es C1 split: option.splits)
  show "\<not> hasInitialized a \<Longrightarrow> es = []" by (simp add: es)
qed

subsection \<open>The invariant\<close>

lemma app_ok_init:
  assumes "app_ok j a t" "\<not> initialize_ran a"
    "init_local j (a\<lparr>initialize_ran := True\<rparr>) = (es, a', r)"
  shows "app_ok j a' (t @ es)"
proof -
  note A = init_local_app [OF assms(3)]
  note T = init_local_trace [OF assms(3)]
  have Z: "emitted j ev t = 0" "called j ph t = 0" for ev ph
    using assms(1,2) by (simp_all add: app_ok_def)
  show ?thesis
    unfolding app_ok_def using A T(1,3,4,5) T(2) by (simp add: Z)
qed

lemma app_ok_unload:
  assumes "app_ok j a t" "\<not> unload_ran a"
    "unload_local j (a\<lparr>unload_ran := True\<rparr>) = (es, a', r)"
  shows "app_ok j a' (t @ es)"
proof -
  note A = unload_local_app [OF assms(3)]
  note T = unload_local_trace [OF assms(3)]
  have Z: "emitted j ''end'' t = 0" "called j PEnd t = 0"
    using assms(1,2) by (simp_all add: app_ok_def)
  have E: "emitted j ev (t @ es) \<le> 1" for ev
  proof (cases "ev = ''end''")
    case True
    then show ?thesis using Z T(1) by simp
  next
    case False
    then show ?thesis using T(2) [of ev j] assms(1) by (simp add: app_ok_def)
  qed
  have S: "called j PStart es = 0" "called j PSetup es = 0" "emitted j ''setup:before'' es = 0"
    using T(4) [of PStart j] T(4) [of PSetup j] T(2) [of "''setup:before''" j] by simp_all
  show ?thesis
  proof (cases "hasInitialized a")
    case False
    then have "es = []" using T(7) by simp
    then show ?thesis using assms(1) A by (simp add: app_ok_def)
  next
    case True
    then show ?thesis
      unfolding app_ok_def using A E assms(1) T(3) S Z by (simp add: app_ok_def)
  qed
qed

lemma app_ok_quiet: "app_ok j a t \<Longrightarrow> quiet a a' \<Longrightarrow> app_ok j a' t"
  by (simp add: app_ok_def quiet_def)

lemma app_ok_other:
  "app_ok j a t \<Longrightarrow> (\<And>ev. emitted j ev es = 0) \<Longrightarrow> (\<And>ph. called j ph es = 0) \<Longrightarrow> app_ok j a (t @ es)"
  by (simp add: app_ok_def)

lemma move_inv:
  assumes "move w w'" "inv w"
  shows "inv w'"
  using assms
proof (cases rule: move.cases)
  case (m_init j es a' r)
  note T = init_local_trace [OF m_init(4)]
  have "app_ok i (apps w' ! i) (trace w')" if "i < length (apps w')" for i
  proof (cases "i = j")
    case True
    then show ?thesis using m_init assms(2) app_ok_init [OF _ m_init(3,4)]
      by (simp add: inv_def listeners_ok_def)
  next
    case False
    then show ?thesis using m_init(1,2) that assms(2) T(6,7) [of i]
      by (simp add: inv_def app_ok_other)
  qed
  moreover have "emitted i ev (trace w') = 0 \<and> called i ph (trace w') = 0"
    if "i \<ge> length (apps w')" for i ev ph
    using that m_init(1,2) assms(2) T(6,7) [of i] by (simp add: inv_def listeners_ok_def)
  ultimately show ?thesis using m_init(1) assms(2) by (simp add: inv_def listeners_ok_def)
next
  case (m_unload j es a' r)
  note T = unload_local_trace [OF m_unload(4)]
  have "app_ok i (apps w' ! i) (trace w')" if "i < length (apps w')" for i
  proof (cases "i = j")
    case True
    then show ?thesis using m_unload assms(2) app_ok_unload [OF _ m_unload(3,4)]
      by (simp add: inv_def listeners_ok_def)
  next
    case False
    then show ?thesis using m_unload(1,2) that assms(2) T(5,6) [of i]
      by (simp add: inv_def app_ok_other)
  qed
  moreover have "emitted i ev (trace w') = 0 \<and> called i ph (trace w') = 0"
    if "i \<ge> length (apps w')" for i ev ph
    using that m_unload(1,2) assms(2) T(5,6) [of i] by (simp add: inv_def listeners_ok_def)
  ultimately show ?thesis using m_unload(1) assms(2) by (simp add: inv_def listeners_ok_def)
next
  case (m_quiet j a')
  have "app_ok i (apps w' ! i) (trace w')" if "i < length (apps w')" for i
    using that m_quiet assms(2) app_ok_quiet [OF _ m_quiet(3)]
    by (cases "i = j") (simp_all add: inv_def)
  then show ?thesis using m_quiet(1) assms(2) by (simp add: inv_def listeners_ok_def)
next
  case (m_env xs ys b n)
  then show ?thesis using assms(2) by (simp add: inv_def listeners_ok_def)
next
  case (m_new s e)
  have "app_ok i (apps w' ! i) (trace w')" if "i < length (apps w')" for i
  proof (cases "i < length (apps w)")
    case True
    then show ?thesis using m_new assms(2) by (simp add: inv_def nth_append)
  next
    case False
    then have "i = length (apps w)" using that m_new by simp
    then show ?thesis using m_new assms(2)
      by (simp add: inv_def app_ok_def fresh_app_def)
  qed
  then show ?thesis using m_new assms(2) by (auto simp: inv_def listeners_ok_def intro: less_SucI)
next
  case (m_note e)
  have "emitted i ev (trace w') = emitted i ev (trace w)" "called i ph (trace w') = called i ph (trace w)"
    for i ev ph
    using m_note by (cases e; simp)+
  then show ?thesis using m_note(1) assms(2) by (simp add: inv_def app_ok_def listeners_ok_def)
qed

subsection \<open>Every action is a sequence of moves\<close>

lemma initialize_first:
  assumes "i < length (apps w)" "\<not> initialize_ran (apps w ! i)"
  shows "initialize i w = lift i (init_local i ((apps w ! i)\<lparr>initialize_ran := True\<rparr>)) w"
  using assms by (simp add: initialize_def initialize_body_local lift_def upd_app_def split: prod.splits option.splits)

lemma unload_first:
  assumes "i < length (apps w)" "\<not> unload_ran (apps w ! i)"
  shows "unload i w = lift i (unload_local i ((apps w ! i)\<lparr>unload_ran := True\<rparr>)) w"
  using assms by (simp add: unload_def unload_body_local lift_def upd_app_def split: prod.splits option.splits)

lemma world_of_lift:
  "world_of (lift i (es, a, r) w) = w\<lparr>apps := (apps w)[i := a], trace := trace w @ es\<rparr>"
  by (cases r) simp_all


lemma move_length: "move w w' \<Longrightarrow> length (apps w) \<le> length (apps w')"
  by (cases rule: move.cases) auto

lemma moves_length: "moves w w' \<Longrightarrow> length (apps w) \<le> length (apps w')"
  by (induction rule: rtranclp_induct) (auto dest: move_length)

lemma move_listeners: "move w w' \<Longrightarrow> listeners_ok w \<Longrightarrow> listeners_ok w'"
  by (cases rule: move.cases) (fastforce simp: listeners_ok_def less_Suc_eq)+

lemma moves_listeners: "moves w w' \<Longrightarrow> listeners_ok w \<Longrightarrow> listeners_ok w'"
  by (induction rule: rtranclp_induct) (auto dest: move_listeners)

lemma moves_inv: "moves w w' \<Longrightarrow> inv w \<Longrightarrow> inv w'"
  by (induction rule: rtranclp_induct) (auto dest: move_inv)

lemma initialize_moves:
  assumes "i < length (apps w)"
  shows "moves w (world_of (initialize i w))"
proof (cases "initialize_ran (apps w ! i)")
  case True
  then show ?thesis by (simp add: initialize_def)
next
  case False
  obtain es a' r where L: "init_local i ((apps w ! i)\<lparr>initialize_ran := True\<rparr>) = (es, a', r)"
    by (metis prod_cases3)
  have "move w (world_of (initialize i w))"
    using m_init [OF assms False L] by (simp add: initialize_first [OF assms False] L world_of_lift)
  then show ?thesis by blast
qed

lemma unload_moves:
  assumes "i < length (apps w)"
  shows "moves w (world_of (unload i w))"
proof (cases "unload_ran (apps w ! i)")
  case True
  then show ?thesis by (simp add: unload_def)
next
  case False
  obtain es a' r where L: "unload_local i ((apps w ! i)\<lparr>unload_ran := True\<rparr>) = (es, a', r)"
    by (metis prod_cases3)
  have "move w (world_of (unload i w))"
    using m_unload [OF assms False L] by (simp add: unload_first [OF assms False] L world_of_lift)
  then show ?thesis by blast
qed

lemma check_moves: "i < length (apps w) \<Longrightarrow> moves w (world_of (check i w))"
  by (simp add: check_def initialize_moves)

lemma each_moves:
  assumes "\<And>x w. x \<in> set xs \<Longrightarrow> n \<le> length (apps w) \<Longrightarrow> moves w (world_of (f x w))"
    and "n \<le> length (apps w)"
  shows "moves w (world_of (each xs f w))"
  using assms
proof (induction xs arbitrary: w)
  case Nil
  then show ?case by simp
next
  case (Cons x xs)
  have M: "moves w (world_of (f x w))" using Cons.prems by simp
  show ?case
  proof (cases "f x w")
    case (Raised e w1)
    then show ?thesis using M by simp
  next
    case (Normal w1)
    then have "moves w w1" using M by simp
    moreover from this have "n \<le> length (apps w1)" using Cons.prems(2) moves_length by fastforce
    then have "moves w1 (world_of (each xs f w1))" using Cons.IH Cons.prems(1) by simp
    ultimately show ?thesis using Normal by simp
  qed
qed

lemma env_move:
  assumes "listeners_ok w'" "apps w' = apps w" "trace w' = trace w"
  shows "move w w'"
proof -
  have "w' = w\<lparr>isDocReady := isDocReady w', lockBarrier := lockBarrier w',
      onDocumentReady := onDocumentReady w', onWindowUnload := onWindowUnload w'\<rparr>"
    using assms(2,3) by (cases w; cases w') simp
  moreover have "\<forall>j \<in> set (onDocumentReady w') \<union> set (onWindowUnload w'). j < length (apps w)"
    using assms(1,2) by (simp add: listeners_ok_def)
  ultimately show ?thesis using m_env [of "onDocumentReady w'" "onWindowUnload w'" w] by metis
qed

lemma quiet_move:
  assumes "i < length (apps w)" "quiet (apps w ! i) (f (apps w ! i))"
  shows "move w (upd_app i f w)"
  using m_quiet [OF assms] by (simp add: upd_app_def)

lemma seq_moves:
  assumes "moves w (world_of r)" "\<And>w1. r = Normal w1 \<Longrightarrow> moves w1 (world_of (f w1))"
  shows "moves w (world_of (seq r f))"
  using assms by (cases r) auto

lemma listeners_okD:
  "listeners_ok w \<Longrightarrow> x \<in> set (onDocumentReady w) \<Longrightarrow> x < length (apps w)"
  "listeners_ok w \<Longrightarrow> x \<in> set (onWindowUnload w) \<Longrightarrow> x < length (apps w)"
  by (simp_all add: listeners_ok_def)

lemma note_quiet_moves:
  assumes "i < length (apps w)" "\<And>a. quiet a (f a)" "silent e"
  shows "moves w (upd_app i f (if b then put e w else w))"
proof (cases b)
  case True
  have "move w (put e w)" using assms(3) by (rule m_note)
  moreover have "move (put e w) (upd_app i f (put e w))"
    using assms(1,2) by (intro quiet_move) simp_all
  ultimately show ?thesis using True by auto
next
  case False
  then show ?thesis using quiet_move [OF assms(1), of f] assms(2) by auto
qed

lemma new_app_moves:
  assumes "listeners_ok w"
  shows "moves w (world_of (new_app s e w))"
proof -
  let ?i = "length (apps w)"
  let ?w1 = "w\<lparr>apps := apps w @ [fresh_app s e]\<rparr>"
  have M1: "move w ?w1" by (rule m_new)
  have L1: "listeners_ok ?w1" using move_listeners [OF M1 assms] .
  have I: "?i < length (apps ?w1)" by simp
  have M2: "moves ?w1 (world_of (bindAutoStart ?i ?w1))"
  proof -
    have "move ?w1 (?w1\<lparr>onDocumentReady := onDocumentReady ?w1 @ [?i]\<rparr>)"
      using L1 by (intro env_move) (auto simp: listeners_ok_def)
    then show ?thesis using check_moves [OF I] by (auto simp: bindAutoStart_def)
  qed
  have M3: "moves w1 (world_of (bindAutoEnd ?i w1))" if "moves ?w1 w1" for w1
  proof -
    have L: "listeners_ok w1" using moves_listeners [OF that L1] .
    have "?i < length (apps w1)" using moves_length [OF that] by simp
    then have "move w1 (w1\<lparr>onWindowUnload := onWindowUnload w1 @ [?i]\<rparr>)"
      using L by (intro env_move) (auto simp: listeners_ok_def)
    then show ?thesis by (auto simp: bindAutoEnd_def)
  qed
  have "moves ?w1 (world_of (seq (bindAutoStart ?i ?w1) (bindAutoEnd ?i)))"
    using M2 M3 by (intro seq_moves) auto
  then show ?thesis using M1 by (simp add: new_app_def Let_def)
qed

lemma step_moves:
  assumes "listeners_ok w"
  shows "moves w (world_of (step a w))"
proof (cases a)
  case (NewApp s e)
  then show ?thesis using new_app_moves [OF assms] by simp
next
  case (Configure i k v)
  show ?thesis
  proof (cases "i < length (apps w)")
    case True
    then show ?thesis using Configure
      by (cases k) (auto simp: on_app_def quiet_def intro!: quiet_move)
  qed (simp add: Configure on_app_def)
next
  case (Setup i func)
  show ?thesis
  proof (cases "i < length (apps w)")
    case True
    then show ?thesis using Setup note_quiet_moves [of i w "\<lambda>a. a\<lparr>setupCalls := setupCalls a @ [func]\<rparr>"
        "ConsoleError ''Setup must have a function.''" "\<not> isFunction func"]
      by (simp add: on_app_def setup_app_def quiet_def)
  qed (simp add: Setup on_app_def)
next
  case (Start i func)
  show ?thesis
  proof (cases "i < length (apps w)")
    case True
    then show ?thesis using Start note_quiet_moves [of i w "\<lambda>a. a\<lparr>startCall := func\<rparr>"
        "ConsoleError ''Start must have a function.''" "\<not> isFunction func"]
      by (simp add: on_app_def start_app_def quiet_def)
  qed (simp add: Start on_app_def)
next
  case (End i func)
  show ?thesis
  proof (cases "i < length (apps w)")
    case True
    then show ?thesis using End note_quiet_moves [of i w "\<lambda>a. a\<lparr>endCall := func\<rparr>"
        "ConsoleError ''End must have a function.''" "\<not> isFunction func"]
      by (simp add: on_app_def end_app_def quiet_def)
  qed (simp add: End on_app_def)
next
  case (Ignite i)
  show ?thesis
  proof (cases "i < length (apps w)")
    case True
    let ?w1 = "upd_app i (\<lambda>a. a\<lparr>isIgnited := True\<rparr>) w"
    have "move w ?w1" using True by (intro quiet_move) (simp_all add: quiet_def)
    moreover have "moves ?w1 (world_of (check i ?w1))" using True by (intro check_moves) simp
    ultimately show ?thesis using True Ignite by (simp add: on_app_def ignite_def)
  qed (simp add: Ignite on_app_def)
next
  case (Smother i opts)
  show ?thesis
  proof (cases "i < length (apps w)")
    case True
    then show ?thesis using Smother unload_moves [OF True] by (simp add: on_app_def smother_def)
  qed (simp add: Smother on_app_def)
next
  case Lock
  have "move w (w\<lparr>lockBarrier := lockBarrier w + 1\<rparr>)"
    using assms by (intro env_move) (simp_all add: listeners_ok_def)
  then show ?thesis using Lock by (simp add: lock_def r_into_rtranclp)
next
  case Unlock
  let ?w1 = "w\<lparr>lockBarrier := lockBarrier w - 1\<rparr>"
  have "move w ?w1" using assms by (intro env_move) (simp_all add: listeners_ok_def)
  moreover have "moves ?w1 (world_of (each [0 ..< length (apps ?w1)] check ?w1))"
    by (rule each_moves [where n = "length (apps ?w1)"]) (simp_all add: check_moves)
  ultimately show ?thesis using Unlock by (simp add: unlock_def runChecks_def)
next
  case DocumentReady
  let ?w1 = "w\<lparr>isDocReady := True\<rparr>"
  have "move w ?w1" using assms by (intro env_move) (simp_all add: listeners_ok_def)
  moreover have "moves ?w1 (world_of (each (onDocumentReady ?w1) check ?w1))"
  proof (rule each_moves [where n = "length (apps w)"])
    fix x and w2 :: world assume "x \<in> set (onDocumentReady ?w1)" "length (apps w) \<le> length (apps w2)"
    then have "x < length (apps w2)" using listeners_okD(1) [OF assms, of x] by simp
    then show "moves w2 (world_of (check x w2))" by (rule check_moves)
  qed simp
  ultimately show ?thesis using DocumentReady by (simp add: document_ready_def Let_def)
next
  case WindowUnload
  have "moves w (world_of (each (onWindowUnload w) unload w))"
  proof (rule each_moves [where n = "length (apps w)"])
    fix x and w2 :: world assume "x \<in> set (onWindowUnload w)" "length (apps w) \<le> length (apps w2)"
    then have "x < length (apps w2)" using listeners_okD(2) [OF assms, of x] by simp
    then show "moves w2 (world_of (unload x w2))" by (rule unload_moves)
  qed simp
  then show ?thesis using WindowUnload by (simp add: window_unload_def)
qed

lemma settle_moves: "moves (world_of r) (settle r)"
proof (cases r)
  case (Raised e w)
  have "move w (put (Uncaught e) w)" by (rule m_note) simp
  then show ?thesis using Raised by auto
qed simp

lemma run_moves: "listeners_ok w \<Longrightarrow> moves w (run acts w)"
proof (induction acts arbitrary: w)
  case Nil
  show ?case by simp
next
  case (Cons a acts)
  have M: "moves w (settle (step a w))"
    using step_moves [OF Cons.prems, of a] settle_moves [of "step a w"] by auto
  then have "listeners_ok (settle (step a w))" using Cons.prems moves_listeners by blast
  from Cons.IH [OF this] M show ?case by auto
qed

lemma inv_empty: "inv empty_world"
  by (simp add: inv_def empty_world_def listeners_ok_def)

lemma run_inv: "inv (run acts empty_world)"
  using run_moves [of empty_world acts] moves_inv inv_empty by (auto simp: inv_def)

subsection \<open>What stays\<close>

lemma move_keeps:
  assumes "move w w'" "i < length (apps w)"
  shows "keeps i w w'"
  using assms(1)
proof (cases rule: move.cases)
  case (m_init j es a' r)
  note A = init_local_app [OF m_init(4)]
  note T = init_local_trace [OF m_init(4)]
  show ?thesis
  proof (cases "i = j")
    case True
    then show ?thesis using m_init(1,2,3) assms(2) A T(3,5) by (simp add: keeps_def)
  next
    case False
    then show ?thesis using m_init(1,2) assms(2) T(6,7) [of i] by (simp add: keeps_def)
  qed
next
  case (m_unload j es a' r)
  note A = unload_local_app [OF m_unload(4)]
  note T = unload_local_trace [OF m_unload(4)]
  show ?thesis
  proof (cases "i = j")
    case True
    then show ?thesis using m_unload(1,2,3) assms(2) A T(2) [of _ i] T(4) [of _ i]
      by (simp add: keeps_def)
  next
    case False
    then show ?thesis using m_unload(1,2) assms(2) T(5,6) [of i] by (simp add: keeps_def)
  qed
next
  case (m_quiet j a')
  then show ?thesis using assms(2) by (cases "i = j") (simp_all add: quiet_def keeps_def)
next
  case (m_env xs ys b n)
  then show ?thesis using assms(2) by (simp add: keeps_def)
next
  case (m_new s e)
  then show ?thesis using assms(2) by (simp add: nth_append keeps_def)
next
  case (m_note e)
  then show ?thesis using assms(2) by (cases e) (simp_all add: keeps_def)
qed

lemma keeps_trans: "keeps i w w1 \<Longrightarrow> keeps i w1 w2 \<Longrightarrow> keeps i w w2"
  unfolding keeps_def by (elim conjE, intro conjI impI) simp_all

lemma moves_keeps:
  assumes "moves w w'" "i < length (apps w)"
  shows "keeps i w w'"
  using assms
proof (induction rule: rtranclp_induct)
  case base
  then show ?case by (simp add: keeps_def)
next
  case (step w1 w2)
  then have K: "keeps i w w1" by simp
  then have "i < length (apps w1)" by (simp add: keeps_def)
  from move_keeps [OF step(2) this] K show ?case by (rule keeps_trans [rotated])
qed

lemma run_keeps:
  assumes "inv w" "i < length (apps w)"
  shows "keeps i w (run acts w)"
  using assms run_moves [of w acts] moves_keeps by (simp add: inv_def)

subsection \<open>Running the model on concrete inputs\<close>

text \<open>The defining equations by which the simplifier runs the methods on a given state.\<close>

named_theorems exec

lemmas [exec] = empty_world_def upd_app_def put_def trigger_def noop_def callSetup_def callStart_def
  initialize_body_def initialize_def check_def unload_body_def unload_def bindAutoStart_def
  bindAutoEnd_def fresh_app_def new_app_def setup_app_def start_app_def end_app_def ignite_def
  smother_def runChecks_def lock_def unlock_def document_ready_def window_unload_def on_app_def
  Let_def

subsection \<open>What a loop preserves\<close>

lemma each_preserves:
  assumes "\<And>x w. x \<in> set xs \<Longrightarrow> P w \<Longrightarrow> P (world_of (f x w))" and "P w"
  shows "P (world_of (each xs f w))"
  using assms
proof (induction xs arbitrary: w)
  case Nil
  then show ?case by simp
next
  case (Cons x xs)
  have P1: "P (world_of (f x w))" using Cons.prems by simp
  show ?case
  proof (cases "f x w")
    case (Raised e w1)
    then show ?thesis using P1 by simp
  next
    case (Normal w1)
    then have "P w1" using P1 by simp
    then have "P (world_of (each xs f w1))" using Cons.IH Cons.prems(1) by simp
    then show ?thesis using Normal by simp
  qed
qed

lemma unload_frame:
  assumes "j < length (apps w)"
  shows "length (apps (world_of (unload j w))) = length (apps w) \<and>
    hasInitialized (apps (world_of (unload j w)) ! i) = hasInitialized (apps w ! i)"
proof (cases "unload_ran (apps w ! j)")
  case True
  then show ?thesis by (simp add: unload_def)
next
  case False
  obtain es a' r where L: "unload_local j ((apps w ! j)\<lparr>unload_ran := True\<rparr>) = (es, a', r)"
    by (metis prod_cases3)
  show ?thesis using unload_local_app(1) [OF L] assms
    by (cases "i = j") (simp_all add: unload_first [OF assms False] L world_of_lift)
qed

lemma window_unload_hasInitialized:
  assumes "listeners_ok w"
  shows "hasInitialized (apps (world_of (window_unload w)) ! i) = hasInitialized (apps w ! i)"
proof -
  let ?P = "\<lambda>w'. length (apps w') = length (apps w) \<and>
    hasInitialized (apps w' ! i) = hasInitialized (apps w ! i)"
  have "?P (world_of (each (onWindowUnload w) unload w))"
  proof (rule each_preserves [where P = ?P])
    fix x and w1 :: world assume "x \<in> set (onWindowUnload w)" "?P w1"
    then have "x < length (apps w1)" using listeners_okD(2) [OF assms] by simp
    from unload_frame [OF this, of i] \<open>?P w1\<close> show "?P (world_of (unload x w1))" by simp
  qed simp
  then show ?thesis by (simp add: window_unload_def)
qed

lemma settle_sel [simp]:
  "apps (settle r) = apps (world_of r)"
  "emitted i ev (trace (settle r)) = emitted i ev (trace (world_of r))"
  "called i ph (trace (settle r)) = called i ph (trace (world_of r))"
  by (cases r; simp)+

subsection \<open>The gate and the broadcast\<close>

lemma initialize_frame:
  assumes "j < length (apps w)"
  shows "lockBarrier (world_of (initialize j w)) = lockBarrier w \<and>
    isDocReady (world_of (initialize j w)) = isDocReady w \<and>
    length (apps (world_of (initialize j w))) = length (apps w) \<and>
    (\<not> initialize_ran (apps w ! j) \<longrightarrow> hasInitialized (apps (world_of (initialize j w)) ! j))"
proof (cases "initialize_ran (apps w ! j)")
  case True
  then show ?thesis by (simp add: initialize_def)
next
  case False
  obtain es a' r where L: "init_local j ((apps w ! j)\<lparr>initialize_ran := True\<rparr>) = (es, a', r)"
    by (metis prod_cases3)
  show ?thesis using init_local_app(1) [OF L] assms
    by (simp add: initialize_first [OF assms False] L world_of_lift)
qed

lemma check_frame:
  assumes "j < length (apps w)"
  shows "lockBarrier (world_of (check j w)) = lockBarrier w \<and>
    isDocReady (world_of (check j w)) = isDocReady w \<and>
    length (apps (world_of (check j w))) = length (apps w)"
  using initialize_frame [OF assms] by (simp add: check_def)

lemma runChecks_frame:
  assumes "set xs \<subseteq> {..< length (apps w)}"
  shows "lockBarrier (world_of (each xs check w)) = lockBarrier w \<and>
    isDocReady (world_of (each xs check w)) = isDocReady w \<and>
    length (apps (world_of (each xs check w))) = length (apps w)"
proof (rule each_preserves [where P = "\<lambda>w'. lockBarrier w' = lockBarrier w \<and>
    isDocReady w' = isDocReady w \<and> length (apps w') = length (apps w)"])
  fix x and w1 :: world
  assume "x \<in> set xs" and P: "lockBarrier w1 = lockBarrier w \<and>
    isDocReady w1 = isDocReady w \<and> length (apps w1) = length (apps w)"
  then have "x < length (apps w1)" using assms by auto
  from check_frame [OF this] P show "lockBarrier (world_of (check x w1)) = lockBarrier w \<and>
    isDocReady (world_of (check x w1)) = isDocReady w \<and>
    length (apps (world_of (check x w1))) = length (apps w)" by simp
qed simp

lemma each_append: "each (xs @ ys) f w = seq (each xs f w) (each ys f)"
proof (induction xs arbitrary: w)
  case Nil
  show ?case by simp
next
  case (Cons x xs)
  then show ?case by (cases "f x w") simp_all
qed

lemma each_check_locked: "lockBarrier w > 0 \<Longrightarrow> each xs check w = Normal w"
  by (induction xs) (simp_all add: check_def)

lemma run_append: "run (xs @ ys) w = run ys (run xs w)"
  by (induction xs arbitrary: w) simp_all

lemma unlocks_while_locked:
  "int k < lockBarrier w \<Longrightarrow>
   run (replicate k Unlock) w = w\<lparr>lockBarrier := lockBarrier w - int k\<rparr>"
proof (induction k arbitrary: w)
  case 0
  then show ?case by simp
next
  case (Suc k)
  have "settle (unlock w) = w\<lparr>lockBarrier := lockBarrier w - 1\<rparr>"
    using Suc.prems by (simp add: unlock_def runChecks_def each_check_locked)
  moreover have "int k < lockBarrier (w\<lparr>lockBarrier := lockBarrier w - 1\<rparr>)"
    using Suc.prems by simp
  ultimately show ?case using Suc.IH [of "w\<lparr>lockBarrier := lockBarrier w - 1\<rparr>"]
    by (simp add: algebra_simps)
qed

lemma check_initializes:
  assumes "inv w" "i < length (apps w)"
  shows "hasInitialized (apps (world_of (check i w)) ! i) \<longleftrightarrow>
    hasInitialized (apps w ! i) \<or> (\<not> lockBarrier w > 0 \<and> (isIgnited (apps w ! i) \<or> isDocReady w))"
proof -
  have "hasInitialized (apps w ! i) = initialize_ran (apps w ! i)"
    using assms by (simp add: inv_def app_ok_def)
  then show ?thesis using initialize_frame [OF assms(2)]
    by (auto simp: check_def initialize_def)
qed

lemma broadcast_reaches:
  assumes "inv w" "i < length (apps w)" "\<not> lockBarrier w > 0"
    "isIgnited (apps w ! i) \<or> isDocReady w"
    "each [0 ..< i] check w = Normal w2"
  shows "hasInitialized (apps (world_of (runChecks w)) ! i)"
proof -
  let ?n = "length (apps w)"
  have M2: "moves w w2" using each_moves [of "[0 ..< i]" ?n check w] check_moves assms(2,5) by simp
  have "set [0 ..< i] \<subseteq> {..< ?n}" using assms(2) by auto
  from runChecks_frame [OF this]
  have F2: "lockBarrier w2 = lockBarrier w \<and> isDocReady w2 = isDocReady w \<and> length (apps w2) = ?n"
    using assms(5) by simp
  have I2: "inv w2" using moves_inv [OF M2 assms(1)] .
  have L2: "i < length (apps w2)" using F2 assms(2) by simp
  have K2: "keeps i w w2" using moves_keeps [OF M2 assms(2)] .
  have R2: "isIgnited (apps w2 ! i) \<or> isDocReady w2" using assms(4) K2 F2 by (auto simp: keeps_def)
  let ?r = "check i w2"
  have H: "hasInitialized (apps (world_of ?r) ! i)"
    using check_initializes [OF I2 L2] R2 F2 assms(3) by simp
  have L3: "i < length (apps (world_of ?r))" using check_frame [OF L2] L2 by simp
  have split: "[0 ..< ?n] = [0 ..< i] @ i # [Suc i ..< ?n]"
    using assms(2) by (metis le0 le_add_diff_inverse less_imp_le_nat upt_add_eq_append upt_conv_Cons)
  have E: "runChecks w = seq ?r (each [Suc i ..< ?n] check)"
    by (simp add: runChecks_def split each_append assms(5))
  show ?thesis
  proof (cases ?r)
    case (Raised e w3)
    then show ?thesis using H E by simp
  next
    case (Normal w3)
    have "moves w3 (world_of (each [Suc i ..< ?n] check w3))"
      using each_moves [of "[Suc i ..< ?n]" ?n check w3] check_moves check_frame [OF L2] F2 Normal
      by simp
    from moves_keeps [OF this] L3 H Normal show ?thesis using E by (simp add: keeps_def)
  qed
qed

subsection \<open>Queues of callbacks\<close>

lemma run_cbs_returns:
  "run_cbs i ph cbs c = (es, c', None) \<Longrightarrow>
   length es = length cbs \<and> c' = config_after i ph cbs c \<and>
   (\<forall>k < length cbs. es ! k = Called i ph (fn_name (cbs ! k)) (config_after i ph (take k cbs) c))"
proof (induction cbs arbitrary: c es)
  case Nil
  then show ?case by (simp add: config_after_def)
next
  case (Cons cb cbs)
  show ?case
  proof (cases cb)
    case (NotFn v)
    with Cons.prems show ?thesis by simp
  next
    case (Fn n f)
    show ?thesis
    proof (cases "f c")
      case (Throws e d)
      with Cons.prems Fn show ?thesis by simp
    next
      case (Returns d)
      obtain es1 where R: "run_cbs i ph cbs d = (es1, c', None)" and E: "es = Called i ph n c # es1"
        using Cons.prems Fn Returns by (auto split: prod.splits)
      from Cons.IH [OF R] have IH: "length es1 = length cbs" "c' = config_after i ph cbs d"
        "\<And>k. k < length cbs \<Longrightarrow> es1 ! k = Called i ph (fn_name (cbs ! k)) (config_after i ph (take k cbs) d)"
        by simp_all
      have A: "config_after i ph (cb # cbs) c = config_after i ph cbs d"
        using Fn Returns R by (simp add: config_after_def split: prod.splits)
      have "es ! k = Called i ph (fn_name ((cb # cbs) ! k)) (config_after i ph (take k (cb # cbs)) c)"
        if "k < length (cb # cbs)" for k
      proof (cases k)
        case 0
        then show ?thesis using E Fn by (simp add: config_after_def)
      next
        case (Suc m)
        then have "m < length cbs" using that by simp
        from IH(3) [OF this] show ?thesis using Suc E Fn Returns
          by (simp add: config_after_def split: prod.splits)
      qed
      then show ?thesis using IH(1,2) E A by simp
    qed
  qed
qed

lemma page_started_eval:
  "page_started = \<lparr>apps = [(fresh_app True True)\<lparr>endCall := bye, isIgnited := True,
        initialize_ran := True, hasInitialized := True\<rparr>],
      isDocReady = False, lockBarrier = 0, onDocumentReady = [0], onWindowUnload = [0],
      trace = [Emit 0 ''setup:before'' (Some []) True, Emit 0 ''setup:after'' (Some []) True,
        Emit 0 ''start:before'' (Some []) True, Called 0 PStart [] [],
        Emit 0 ''start:after'' (Some []) True]\<rparr>"
  by (simp add: page_started_def exec bye_def)

lemma run_cbs_append:
  "run_cbs i ph (xs @ ys) c =
     (case run_cbs i ph xs c of
        (es, c1, None) \<Rightarrow> (case run_cbs i ph ys c1 of (es2, c2, r) \<Rightarrow> (es @ es2, c2, r))
      | (es, c1, Some e) \<Rightarrow> (es, c1, Some e))"
proof (induction xs arbitrary: c)
  case Nil
  show ?case by (simp split: prod.splits)
next
  case (Cons x xs)
  show ?case
  proof (cases x)
    case (NotFn v)
    then show ?thesis by simp
  next
    case (Fn n f)
    then show ?thesis using Cons.IH
      by (cases "f c") (simp_all split: prod.splits option.splits)
  qed
qed

lemma init_setup_throws:
  assumes "i < length (apps w)" and "a = apps w ! i" and "\<not> initialize_ran a"
    and "setupCalls a = pre @ Fn n f # post"
    and "run_cbs i PSetup pre (config a) = (es, c1, None)" and "f c1 = Throws e c2"
  shows "initialize i w = Raised e (w\<lparr>apps := (apps w)[i := a\<lparr>initialize_ran := True,
             startCall := (if is_truthy (startCall a) then startCall a else noop),
             hasInitialized := True, config := c2\<rparr>],
           trace := trace w @ [Emit i ''setup:before'' (Some (config a)) True] @ es @
             [Called i PSetup n c1]\<rparr>)"
proof -
  have "run_cbs i PSetup (setupCalls a) (config a) = (es @ [Called i PSetup n c1], c2, Some e)"
    using assms(4,5,6) by (simp add: run_cbs_append)
  then have "init_local i (a\<lparr>initialize_ran := True\<rparr>) =
     ([Emit i ''setup:before'' (Some (config a)) True] @ es @ [Called i PSetup n c1],
      a\<lparr>initialize_ran := True,
             startCall := (if is_truthy (startCall a) then startCall a else noop),
             hasInitialized := True, config := c2\<rparr>, Some e)"
    by (simp add: init_local_def Let_def)
  then show ?thesis using initialize_first [OF assms(1)] assms(2,3) by simp
qed

lemma init_start_throws:
  assumes "i < length (apps w)" and "a = apps w ! i" and "\<not> initialize_ran a"
    and "run_cbs i PSetup (setupCalls a) (config a) = (es, c1, None)"
    and "(if is_truthy (startCall a) then startCall a else noop) = Fn n f"
    and "f c1 = Throws e c2"
  shows "initialize i w = Raised e (w\<lparr>apps := (apps w)[i := a\<lparr>initialize_ran := True,
             startCall := Fn n f, hasInitialized := True, setupCalls := [], config := c2\<rparr>],
           trace := trace w @ [Emit i ''setup:before'' (Some (config a)) True] @ es @
             [Emit i ''setup:after'' (Some c1) True, Emit i ''start:before'' (Some c1) True,
              Called i PStart n c1]\<rparr>)"
proof -
  have "init_local i (a\<lparr>initialize_ran := True\<rparr>) =
     ([Emit i ''setup:before'' (Some (config a)) True] @ es @
             [Emit i ''setup:after'' (Some c1) True, Emit i ''start:before'' (Some c1) True,
              Called i PStart n c1],
      a\<lparr>initialize_ran := True,
             startCall := Fn n f, hasInitialized := True, setupCalls := [], config := c2\<rparr>, Some e)"
  proof (cases "is_truthy (startCall a)")
    case True
    then have "startCall a = Fn n f" using assms(5) by simp
    then show ?thesis using True assms(4,6) by (simp add: init_local_def Let_def)
  next
    case False
    then have "noop = Fn n f" using assms(5) by simp
    then have "f c1 = Returns c1" by (auto simp: noop_def)
    then show ?thesis using assms(6) by simp
  qed
  then show ?thesis using initialize_first [OF assms(1)] assms(2,3) by simp
qed

subsection \<open>Diagnostics and the lock counter\<close>

lemma run_cbs_no_console: "filter is_console (fst (run_cbs i ph cbs c)) = []"
proof (induction cbs arbitrary: c)
  case Nil
  show ?case by simp
next
  case (Cons cb cbs)
  show ?case
  proof (cases cb)
    case (Fn n f)
    then show ?thesis using Cons.IH by (cases "f c") (simp_all split: prod.splits, metis fst_conv)
  qed simp
qed

lemma init_local_no_console:
  assumes "init_local j a = (es, a', r)"
  shows "filter is_console es = []"
proof -
  let ?sc = "if is_truthy (startCall a) then startCall a else noop"
  obtain es1 c1 r1 where R1: "run_cbs j PSetup (setupCalls a) (config a) = (es1, c1, r1)"
    by (metis prod_cases3)
  obtain es2 c2 r2 where R2: "run_cbs j PStart [?sc] c1 = (es2, c2, r2)"
    by (metis prod_cases3)
  have E1: "filter is_console es1 = []"
    using run_cbs_no_console [of j PSetup "setupCalls a" "config a"] R1 by simp
  have E2: "filter is_console es2 = []"
    using run_cbs_no_console [of j PStart "[?sc]" c1] R2 by simp
  show ?thesis using assms R1 R2 E1 E2
    by (auto simp: init_local_def Let_def split: option.splits)
qed

lemma initialize_lock_free:
  assumes "i < length (apps w)"
  shows "world_of (initialize i (w\<lparr>lockBarrier := n\<rparr>)) = (world_of (initialize i w))\<lparr>lockBarrier := n\<rparr> \<and>
    raised (initialize i (w\<lparr>lockBarrier := n\<rparr>)) = raised (initialize i w)"
proof (cases "initialize_ran (apps w ! i)")
  case True
  then show ?thesis by (simp add: initialize_def)
next
  case False
  obtain es a' r where L: "init_local i ((apps w ! i)\<lparr>initialize_ran := True\<rparr>) = (es, a', r)"
    by (metis prod_cases3)
  have 1: "initialize i w = lift i (es, a', r) w"
    using initialize_first [OF assms False] L by simp
  have 2: "initialize i (w\<lparr>lockBarrier := n\<rparr>) = lift i (es, a', r) (w\<lparr>lockBarrier := n\<rparr>)"
    using initialize_first [of i "w\<lparr>lockBarrier := n\<rparr>"] assms False L by simp
  show ?thesis unfolding 1 2 by (cases r) simp_all
qed

lemma check_no_console:
  assumes "j < length (apps w)"
  shows "filter is_console (trace (world_of (check j w))) = filter is_console (trace w)"
proof (cases "initialize_ran (apps w ! j)")
  case True
  then show ?thesis by (simp add: check_def initialize_def)
next
  case False
  obtain es a' r where L: "init_local j ((apps w ! j)\<lparr>initialize_ran := True\<rparr>) = (es, a', r)"
    by (metis prod_cases3)
  show ?thesis using init_local_no_console [OF L]
    by (simp add: check_def initialize_first [OF assms False] L world_of_lift)
qed

lemma runChecks_no_console:
  "filter is_console (trace (world_of (runChecks w))) = filter is_console (trace w)"
proof -
  let ?P = "\<lambda>w'. length (apps w') = length (apps w) \<and>
    filter is_console (trace w') = filter is_console (trace w)"
  have "?P (world_of (each [0 ..< length (apps w)] check w))"
  proof (rule each_preserves [where P = ?P])
    fix x and w1 :: world assume "x \<in> set [0 ..< length (apps w)]" and P: "?P w1"
    then have "x < length (apps w1)" by simp
    from check_no_console [OF this] check_frame [OF this] P show "?P (world_of (check x w1))"
      by simp
  qed simp
  then show ?thesis by (simp add: runChecks_def)
qed

lemma loaded_eval:
  "loaded = \<lparr>apps = [fresh_app True True], isDocReady = False, lockBarrier = 0,
     onDocumentReady = [0], onWindowUnload = [0], trace = []\<rparr>"
  by (simp add: loaded_def exec)

lemma unlocks_loaded:
  "run (replicate n Unlock) (loaded\<lparr>lockBarrier := k\<rparr>) = loaded\<lparr>lockBarrier := k - int n\<rparr>"
proof (induction n arbitrary: k)
  case 0
  show ?case by simp
next
  case (Suc n)
  have "settle (unlock (loaded\<lparr>lockBarrier := k\<rparr>)) = loaded\<lparr>lockBarrier := k - 1\<rparr>"
    by (simp add: loaded_eval unlock_def runChecks_def check_def fresh_app_def)
  then show ?case using Suc.IH [of "k - 1"] by (simp add: algebra_simps)
qed

subsection \<open>Delivery of the unload event\<close>

lemma same_end_refl: "same_end w w"
  by (simp add: same_end_def)

lemma same_end_trans: "same_end w w1 \<Longrightarrow> same_end w1 w2 \<Longrightarrow> same_end w w2"
  by (simp add: same_end_def)

lemma end_bound_same: "end_bound w \<Longrightarrow> same_end w w' \<Longrightarrow> end_bound w'"
  by (simp add: end_bound_def same_end_def)

lemma same_end_upd:
  assumes "\<And>a. autoEnd (f a) = autoEnd a"
  shows "same_end w (upd_app i f w)"
proof -
  have "autoEnd ((apps w)[i := f (apps w ! i)] ! k) = autoEnd (apps w ! k)" for k
  proof (cases "i < length (apps w)")
    case True
    show ?thesis
    proof (cases "k = i")
      case True
      have "autoEnd (f (apps w ! i)) = autoEnd (apps w ! i)" by (rule assms)
      then show ?thesis using True \<open>i < length (apps w)\<close> by simp
    next
      case False
      then show ?thesis by simp
    qed
  next
    case False
    then show ?thesis by (simp add: list_update_beyond)
  qed
  then have "\<forall>k. autoEnd ((apps w)[i := f (apps w ! i)] ! k) = autoEnd (apps w ! k)" by blast
  then show ?thesis unfolding same_end_def by simp
qed

lemma same_end_lift:
  assumes "j < length (apps w)" "autoEnd a' = autoEnd (apps w ! j)"
  shows "same_end w (world_of (lift j (es, a', r) w))"
proof -
  have "autoEnd ((apps w)[j := a'] ! k) = autoEnd (apps w ! k)" for k
    using assms by (cases "k = j") auto
  then show ?thesis by (simp add: same_end_def world_of_lift)
qed

lemma initialize_same:
  assumes "j < length (apps w)"
  shows "same_end w (world_of (initialize j w))"
proof (cases "initialize_ran (apps w ! j)")
  case True
  then show ?thesis by (simp add: initialize_def same_end_refl)
next
  case False
  obtain es a' r where L: "init_local j ((apps w ! j)\<lparr>initialize_ran := True\<rparr>) = (es, a', r)"
    by (metis prod_cases3)
  have "autoEnd a' = autoEnd (apps w ! j)" using init_local_app(5) [OF L] by simp
  from same_end_lift [OF assms this] show ?thesis
    by (simp add: initialize_first [OF assms False] L)
qed

lemma check_same: "j < length (apps w) \<Longrightarrow> same_end w (world_of (check j w))"
  by (simp add: check_def initialize_same same_end_refl)

lemma unload_same:
  assumes "j < length (apps w)"
  shows "same_end w (world_of (unload j w))"
proof (cases "unload_ran (apps w ! j)")
  case True
  then show ?thesis by (simp add: unload_def same_end_refl)
next
  case False
  obtain es a' r where L: "unload_local j ((apps w ! j)\<lparr>unload_ran := True\<rparr>) = (es, a', r)"
    by (metis prod_cases3)
  have "autoEnd a' = autoEnd (apps w ! j)" using unload_local_app(5) [OF L] by simp
  from same_end_lift [OF assms this] show ?thesis
    by (simp add: unload_first [OF assms False] L)
qed

lemma each_same:
  assumes "\<And>j w. j < length (apps w) \<Longrightarrow> same_end w (world_of (f j w))"
    and "\<forall>x \<in> set xs. x < length (apps w)"
  shows "same_end w (world_of (each xs f w))"
proof (rule each_preserves [where P = "same_end w"])
  fix x and w1 :: world
  assume X: "x \<in> set xs" and P: "same_end w w1"
  then have "x < length (apps w1)" using assms(2) by (simp add: same_end_def)
  from assms(1) [OF this] P show "same_end w (world_of (f x w1))" by (rule same_end_trans [rotated])
qed (rule same_end_refl)

lemma fresh_check:
  assumes "apps w = xs @ [fresh_app s e]"
  shows "\<exists>w'. check (length xs) w = Normal w'"
proof -
  let ?i = "length xs"
  have L: "?i < length (apps w)" and A: "apps w ! ?i = fresh_app s e" using assms by simp_all
  have N: "\<not> initialize_ran (apps w ! ?i)" using A by (simp add: fresh_app_def)
  obtain es a' r where R: "init_local ?i ((fresh_app s e)\<lparr>initialize_ran := True\<rparr>) = (es, a', r)"
    by (metis prod_cases3)
  then have "r = None" by (simp add: init_local_def fresh_app_def noop_def)
  then have "initialize ?i w = Normal (w\<lparr>apps := (apps w)[?i := a'], trace := trace w @ es\<rparr>)"
    using initialize_first [OF L N] A R by simp
  then show ?thesis by (simp add: check_def)
qed

lemma new_app_end_bound:
  assumes "end_bound w"
  shows "end_bound (world_of (new_app s e w))"
proof -
  let ?i = "length (apps w)"
  let ?w1 = "w\<lparr>apps := apps w @ [fresh_app s e]\<rparr>"
  have I: "?i < length (apps ?w1)" by simp
  have A: "autoStart (apps ?w1 ! ?i) = s" by (simp add: fresh_app_def)
  have "\<exists>w2. bindAutoStart ?i ?w1 = Normal w2 \<and> same_end ?w1 w2"
  proof (cases "s \<and> isDocReady w")
    case True
    then have E: "bindAutoStart ?i ?w1 = check ?i ?w1" unfolding bindAutoStart_def A by simp
    obtain w2 where C: "check ?i ?w1 = Normal w2"
      using fresh_check [of ?w1 "apps w" s e] by auto
    have "same_end ?w1 w2" using check_same [OF I] unfolding C by simp
    then show ?thesis unfolding E C by blast
  next
    case False
    then show ?thesis unfolding bindAutoStart_def A by (auto simp: same_end_def)
  qed
  then obtain w2 where B: "bindAutoStart ?i ?w1 = Normal w2" and S: "same_end ?w1 w2" by blast
  have W: "world_of (new_app s e w) = world_of (bindAutoEnd ?i w2)"
    using B by (simp add: new_app_def Let_def)
  have S1: "length (apps w2) = Suc ?i" "onWindowUnload w2 = onWindowUnload w"
    "\<And>k. autoEnd (apps w2 ! k) = autoEnd ((apps w @ [fresh_app s e]) ! k)"
    using S by (simp_all add: same_end_def)
  have X: "i \<in> set (onWindowUnload (world_of (bindAutoEnd ?i w2)))"
    if "i < length (apps w2)" "autoEnd (apps w2 ! i)" for i
  proof (cases "i = ?i")
    case True
    then show ?thesis using that(2) by (simp add: bindAutoEnd_def)
  next
    case False
    then have "i < length (apps w)" using that(1) S1(1) by simp
    moreover from this have "autoEnd (apps w ! i)" using that(2) S1(3) [of i] by (simp add: nth_append)
    ultimately have "i \<in> set (onWindowUnload w)" using assms by (simp add: end_bound_def)
    then show ?thesis using S1(2) by (simp add: bindAutoEnd_def)
  qed
  have Y: "apps (world_of (bindAutoEnd ?i w2)) = apps w2" by (simp add: bindAutoEnd_def)
  show ?thesis unfolding W end_bound_def Y using X by blast
qed

lemma step_same:
  assumes "listeners_ok w" "\<And>s e. a \<noteq> NewApp s e"
  shows "same_end w (world_of (step a w))"
proof (cases a)
  case (NewApp s e)
  then show ?thesis using assms(2) by simp
next
  case (Configure i k v)
  then show ?thesis
    by (cases k) (simp_all add: on_app_def same_end_upd same_end_refl)
next
  case (Setup i func)
  have "same_end w (put e w)" for e by (simp add: same_end_def)
  then show ?thesis using Setup same_end_upd [of "\<lambda>a. a\<lparr>setupCalls := setupCalls a @ [func]\<rparr>"]
    by (auto simp: on_app_def setup_app_def same_end_refl intro: same_end_trans)
next
  case (Start i func)
  have "same_end w (put e w)" for e by (simp add: same_end_def)
  then show ?thesis using Start same_end_upd [of "\<lambda>a. a\<lparr>startCall := func\<rparr>"]
    by (auto simp: on_app_def start_app_def same_end_refl intro: same_end_trans)
next
  case (End i func)
  have "same_end w (put e w)" for e by (simp add: same_end_def)
  then show ?thesis using End same_end_upd [of "\<lambda>a. a\<lparr>endCall := func\<rparr>"]
    by (auto simp: on_app_def end_app_def same_end_refl intro: same_end_trans)
next
  case (Ignite i)
  show ?thesis
  proof (cases "i < length (apps w)")
    case True
    let ?w1 = "upd_app i (\<lambda>a. a\<lparr>isIgnited := True\<rparr>) w"
    have 1: "same_end w ?w1" by (rule same_end_upd) simp
    have "i < length (apps ?w1)" using True by simp
    then have 2: "same_end ?w1 (world_of (check i ?w1))" by (rule check_same)
    have W: "world_of (step a w) = world_of (check i ?w1)"
      using Ignite True by (simp add: on_app_def ignite_def)
    show ?thesis unfolding W using 1 2 by (rule same_end_trans)
  next
    case False
    then show ?thesis using Ignite by (simp add: on_app_def same_end_refl)
  qed
next
  case (Smother i opts)
  then show ?thesis using unload_same [of i w]
    by (simp add: on_app_def smother_def same_end_refl)
next
  case Lock
  then show ?thesis by (simp add: lock_def same_end_def)
next
  case Unlock
  let ?w1 = "w\<lparr>lockBarrier := lockBarrier w - 1\<rparr>"
  have 1: "same_end w ?w1" by (simp add: same_end_def)
  have V: "\<forall>x \<in> set [0 ..< length (apps ?w1)]. x < length (apps ?w1)" by simp
  have 2: "same_end ?w1 (world_of (each [0 ..< length (apps ?w1)] check ?w1))"
    using check_same V by (rule each_same)
  have W: "world_of (step a w) = world_of (each [0 ..< length (apps ?w1)] check ?w1)"
    using Unlock by (simp add: unlock_def runChecks_def)
  show ?thesis unfolding W using 1 2 by (rule same_end_trans)
next
  case DocumentReady
  let ?w1 = "w\<lparr>isDocReady := True\<rparr>"
  have 1: "same_end w ?w1" by (simp add: same_end_def)
  have V: "\<forall>x \<in> set (onDocumentReady ?w1). x < length (apps ?w1)"
    using listeners_okD(1) [OF assms(1)] by simp
  have 2: "same_end ?w1 (world_of (each (onDocumentReady ?w1) check ?w1))"
    using check_same V by (rule each_same)
  have W: "world_of (step a w) = world_of (each (onDocumentReady ?w1) check ?w1)"
    using DocumentReady by (simp add: document_ready_def Let_def)
  show ?thesis unfolding W using 1 2 by (rule same_end_trans)
next
  case WindowUnload
  have V: "\<forall>x \<in> set (onWindowUnload w). x < length (apps w)"
    using listeners_okD(2) [OF assms(1)] by simp
  have "same_end w (world_of (each (onWindowUnload w) unload w))"
    using unload_same V by (rule each_same)
  then show ?thesis using WindowUnload by (simp add: window_unload_def)
qed

lemma step_end_bound:
  assumes "listeners_ok w" "end_bound w"
  shows "end_bound (world_of (step a w))"
proof (cases "\<exists>s e. a = NewApp s e")
  case True
  then show ?thesis using new_app_end_bound [OF assms(2)] by auto
next
  case False
  then have "same_end w (world_of (step a w))" using step_same [OF assms(1)] by blast
  with assms(2) show ?thesis by (rule end_bound_same)
qed

lemma settle_end_bound: "end_bound (settle r) = end_bound (world_of r)"
  by (cases r) (simp_all add: end_bound_def)

lemma run_end_bound: "listeners_ok w \<Longrightarrow> end_bound w \<Longrightarrow> end_bound (run acts w)"
proof (induction acts arbitrary: w)
  case Nil
  then show ?case by simp
next
  case (Cons a acts)
  have M: "moves w (settle (step a w))"
    using step_moves [OF Cons.prems(1), of a] settle_moves [of "step a w"] by auto
  then have "listeners_ok (settle (step a w))" using Cons.prems(1) moves_listeners by blast
  moreover have "end_bound (settle (step a w))"
    using step_end_bound [OF Cons.prems] by (simp add: settle_end_bound)
  ultimately show ?case using Cons.IH by simp
qed

lemma reachable_end_bound: "end_bound (run acts empty_world)"
  by (rule run_end_bound) (simp_all add: listeners_ok_def end_bound_def empty_world_def)

lemma unload_other:
  assumes "j < length (apps w)" "j \<noteq> i"
  shows "length (apps (world_of (unload j w))) = length (apps w) \<and>
    apps (world_of (unload j w)) ! i = apps w ! i \<and>
    called i PEnd (trace (world_of (unload j w))) = called i PEnd (trace w) \<and>
    emitted i ''end'' (trace (world_of (unload j w))) = emitted i ''end'' (trace w)"
proof (cases "unload_ran (apps w ! j)")
  case True
  then show ?thesis by (simp add: unload_def)
next
  case False
  obtain es a' r where L: "unload_local j ((apps w ! j)\<lparr>unload_ran := True\<rparr>) = (es, a', r)"
    by (metis prod_cases3)
  note T = unload_local_trace(5,6) [OF L, of i]
  show ?thesis using assms T
    by (simp add: unload_first [OF assms(1) False] L world_of_lift)
qed

lemma unload_fires:
  assumes "i < length (apps w)" and "a = apps w ! i"
    and "hasInitialized a" and "\<not> unload_ran a"
    and "endCall a = Fn n f" and "f (config a) = Returns c"
  shows "unload i w = Normal (w\<lparr>apps := (apps w)[i := a\<lparr>unload_ran := True, config := c\<rparr>],
          trace := trace w @ [Called i PEnd n (config a), Emit i ''end'' None True]\<rparr>)"
proof -
  have N: "\<not> unload_ran (apps w ! i)" using assms(2,4) by simp
  have "unload_local i (a\<lparr>unload_ran := True\<rparr>) =
        ([Called i PEnd n (config a), Emit i ''end'' None True],
         a\<lparr>unload_ran := True, config := c\<rparr>, None)"
    using assms(3,5,6) by (simp add: unload_local_def)
  then show ?thesis using assms(2) unload_first [OF assms(1) N] by simp
qed

lemma unload_fires_plain:
  assumes "i < length (apps w)" and "a = apps w ! i"
    and "hasInitialized a" and "\<not> unload_ran a" and "\<not> is_truthy (endCall a)"
  shows "unload i w = Normal (w\<lparr>apps := (apps w)[i := a\<lparr>unload_ran := True\<rparr>],
          trace := trace w @ [Emit i ''end'' None True]\<rparr>)"
proof -
  have N: "\<not> unload_ran (apps w ! i)" using assms(2,4) by simp
  have "unload_local i (a\<lparr>unload_ran := True\<rparr>) =
        ([Emit i ''end'' None True], a\<lparr>unload_ran := True\<rparr>, None)"
    using assms(3,5) by (simp add: unload_local_def)
  then show ?thesis using assms(2) unload_first [OF assms(1) N] by simp
qed

lemma unload_early:
  assumes "i < length (apps w)" and "a = apps w ! i"
    and "\<not> hasInitialized a" and "\<not> unload_ran a"
  shows "unload i w = Normal (w\<lparr>apps := (apps w)[i := a\<lparr>unload_ran := True\<rparr>]\<rparr>)"
proof -
  have N: "\<not> unload_ran (apps w ! i)" using assms(2,4) by simp
  have "unload_local i (a\<lparr>unload_ran := True\<rparr>) = ([], a\<lparr>unload_ran := True\<rparr>, None)"
    using assms(3) by (simp add: unload_local_def)
  then show ?thesis using assms(2) unload_first [OF assms(1) N] by simp
qed

lemma dispatch_unload:
  assumes "inv w" and "i < length (apps w)" and "i \<in> set (onWindowUnload w)"
    and "each (takeWhile (\<lambda>j. j \<noteq> i) (onWindowUnload w)) unload w = Normal w2"
  shows "length (apps w2) = length (apps w) \<and> apps w2 ! i = apps w ! i \<and>
    called i PEnd (trace w2) = called i PEnd (trace w) \<and>
    emitted i ''end'' (trace w2) = emitted i ''end'' (trace w) \<and>
    (\<forall>w3. unload i w2 = Normal w3 \<longrightarrow> keeps i w3 (world_of (window_unload w)))"
proof -
  let ?xs = "onWindowUnload w"
  let ?pre = "takeWhile (\<lambda>j. j \<noteq> i) ?xs"
  have LO: "listeners_ok w" using assms(1) by (simp add: inv_def)
  have "dropWhile (\<lambda>j. j \<noteq> i) ?xs \<noteq> []" using assms(3) by simp
  then obtain y rest where D: "dropWhile (\<lambda>j. j \<noteq> i) ?xs = y # rest"
    by (cases "dropWhile (\<lambda>j. j \<noteq> i) ?xs") auto
  then have "y = i" using hd_dropWhile [of "\<lambda>j. j \<noteq> i" ?xs] by simp
  then have X: "?xs = ?pre @ i # rest" using D takeWhile_dropWhile_id [of "\<lambda>j. j \<noteq> i" ?xs] by simp
  have V: "x < length (apps w)" if "x \<in> set ?xs" for x using listeners_okD(2) [OF LO that] .
  let ?P = "\<lambda>w'. length (apps w') = length (apps w) \<and> apps w' ! i = apps w ! i \<and>
    called i PEnd (trace w') = called i PEnd (trace w) \<and>
    emitted i ''end'' (trace w') = emitted i ''end'' (trace w)"
  have "?P (world_of (each ?pre unload w))"
  proof (rule each_preserves [where P = ?P])
    fix x and w1 :: world assume x: "x \<in> set ?pre" and P: "?P w1"
    have "x \<noteq> i" using x by (auto dest: set_takeWhileD)
    moreover have "x < length (apps w1)" using x V P by (auto dest: set_takeWhileD)
    ultimately show "?P (world_of (unload x w1))" using unload_other [of x w1 i] P by simp
  qed simp
  then have P2: "?P w2" using assms(4) by simp
  then have L2: "i < length (apps w2)" using assms(2) by simp
  have K: "keeps i w3 (world_of (window_unload w))" if U: "unload i w2 = Normal w3" for w3
  proof -
    have W: "window_unload w = each rest unload w3"
      unfolding window_unload_def by (subst X) (simp add: each_append assms(4) U)
    have E3: "length (apps w3) = length (apps w2)" using unload_frame [OF L2, of i] U by simp
    then have L3: "i < length (apps w3)" using L2 by simp
    have M: "moves w3 (world_of (each rest unload w3))"
    proof (rule each_moves [where n = "length (apps w3)"])
      fix x and w4 :: world assume "x \<in> set rest" "length (apps w3) \<le> length (apps w4)"
      then have "x \<in> set (?pre @ i # rest)" and G: "length (apps w) \<le> length (apps w4)"
        using P2 E3 by simp_all
      from this(1) have "x \<in> set ?xs" unfolding X [symmetric] .
      then have "x < length (apps w4)" using V [of x] G by simp
      then show "moves w4 (world_of (unload x w4))" by (rule unload_moves)
    qed simp
    show ?thesis unfolding W using moves_keeps [OF M L3] .
  qed
  show ?thesis using P2 K by blast
qed

subsection \<open>The end of an App in every run\<close>

text \<open>
  In every state that a run reaches, an App has called its end callback at most once and
  emitted \<open>end\<close> at most once. While the App is not initialized it has done neither;
  \<open>smother\<close>, with any options, then returns the state unchanged; and the unload event of
  the window leaves the App uninitialized and makes it call and emit nothing.
\<close>

lemma end_at_most_once:
  assumes "i < length (apps (run acts empty_world))"
  shows "let w = run acts empty_world; a = apps w ! i in
     emitted i ''end'' (trace w) \<le> 1 \<and> called i PEnd (trace w) \<le> 1 \<and>
     (\<not> hasInitialized a \<longrightarrow>
        emitted i ''end'' (trace w) = 0 \<and> called i PEnd (trace w) = 0 \<and>
        (\<forall>opts. smother i opts w = Normal w) \<and>
        \<not> hasInitialized (apps (run [WindowUnload] w) ! i) \<and>
        emitted i ''end'' (trace (run [WindowUnload] w)) = 0 \<and>
        called i PEnd (trace (run [WindowUnload] w)) = 0)"
proof -
  define w where "w = run acts empty_world"
  have I: "inv w" unfolding w_def by (rule run_inv)
  have L: "i < length (apps w)" using assms by (simp add: w_def)
  have OK: "app_ok i (apps w ! i) (trace w)" using I L by (simp add: inv_def)
  have LO: "listeners_ok w" using I by (simp add: inv_def)
  have 1: "emitted i ''end'' (trace w) \<le> 1" "called i PEnd (trace w) \<le> 1"
    using OK by (simp_all add: app_ok_def)
  have 2: "emitted i ''end'' (trace w) = 0 \<and> called i PEnd (trace w) = 0 \<and>
        (\<forall>opts. smother i opts w = Normal w) \<and>
        \<not> hasInitialized (apps (run [WindowUnload] w) ! i) \<and>
        emitted i ''end'' (trace (run [WindowUnload] w)) = 0 \<and>
        called i PEnd (trace (run [WindowUnload] w)) = 0"
    if N: "\<not> hasInitialized (apps w ! i)"
  proof -
    let ?w' = "run [WindowUnload] w"
    have I': "inv ?w'" using moves_inv [OF run_moves [OF LO] I] .
    have L': "i < length (apps ?w')" using moves_length [OF run_moves [OF LO, of "[WindowUnload]"]] L by simp
    have N': "\<not> hasInitialized (apps ?w' ! i)"
      using N window_unload_hasInitialized [OF LO, of i] by simp
    have "app_ok i (apps ?w' ! i) (trace ?w')" using I' L' by (simp add: inv_def)
    then have "emitted i ''end'' (trace ?w') = 0" "called i PEnd (trace ?w') = 0"
      using N' by (simp_all add: app_ok_def)
    moreover have "emitted i ''end'' (trace w) = 0" "called i PEnd (trace w) = 0"
      using OK N by (simp_all add: app_ok_def)
    moreover have "smother i opts w = Normal w" for opts using N by (simp add: smother_def)
    ultimately show ?thesis using N' by blast
  qed
  show ?thesis unfolding Let_def w_def [symmetric] using 1 2 by blast
qed

lemma end_at_most_once_page:
  "0 < length (apps (run [NewApp True True, End 0 (Fn ''bye'' Returns), WindowUnload, Smother 0 NoOpts] empty_world)) \<and>
   \<not> hasInitialized (apps (run [NewApp True True, End 0 (Fn ''bye'' Returns), WindowUnload, Smother 0 NoOpts] empty_world) ! 0) \<and>
   called 0 PEnd (trace (run [NewApp True True, End 0 (Fn ''bye'' Returns), WindowUnload, Smother 0 NoOpts] empty_world)) = 0 \<and>
   emitted 0 ''end'' (trace (run [NewApp True True, End 0 (Fn ''bye'' Returns), WindowUnload, Smother 0 NoOpts] empty_world)) = 0"
proof -
  have L: "0 < length (apps (run [NewApp True True, End 0 (Fn ''bye'' Returns), WindowUnload, Smother 0 NoOpts] empty_world))"
    by (simp add: exec)
  have H: "\<not> hasInitialized (apps (run [NewApp True True, End 0 (Fn ''bye'' Returns), WindowUnload, Smother 0 NoOpts] empty_world) ! 0)"
    by (simp add: exec)
  from end_at_most_once [OF L] L H show ?thesis by (simp add: Let_def)
qed

text \<open>
  The unload event is nevertheless not without effect on an App that is not initialized.
  The listener that \<open>_bindAutoEnd\<close> subscribes is the \<open>_.once\<close> wrapper of \<open>_unload\<close>
  (lines 86 and 129), and the guard on \<open>_hasInitialized\<close> stands inside the wrapped body
  (line 267), whereas \<open>smother\<close> tests the flag before it touches the wrapper (line 201).
  So in every state that a run reaches, for every App that is not initialized and has
  \<open>autoEnd\<close>, an unload event that is delivered to the App's listener (the listeners
  subscribed before it return) leaves the one shot spent; and whatever follows, be it
  \<open>ignite\<close>, \<open>smother\<close> or further unload events, the App never calls its end callback and
  never emits \<open>end\<close>.
\<close>

lemma early_unload_never_ends:
  assumes "w = run acts empty_world" and "i < length (apps w)" and "a = apps w ! i"
    and "\<not> hasInitialized a" and "autoEnd a"
    and "each (takeWhile (\<lambda>j. j \<noteq> i) (onWindowUnload w)) unload w = Normal w2"
  shows "unload_ran (apps (run [WindowUnload] w) ! i) \<and>
     (\<forall>more. called i PEnd (trace (run (WindowUnload # more) w)) = 0 \<and>
        emitted i ''end'' (trace (run (WindowUnload # more) w)) = 0)"
proof -
  have I: "inv w" unfolding assms(1) by (rule run_inv)
  have LO: "listeners_ok w" using I by (simp add: inv_def)
  have "end_bound w" unfolding assms(1) by (rule reachable_end_bound)
  then have S: "i \<in> set (onWindowUnload w)" using assms(2,3,5) by (simp add: end_bound_def)
  note D = dispatch_unload [OF I assms(2) S assms(6)]
  have L2: "i < length (apps w2)" and A2: "a = apps w2 ! i" using D assms(2,3) by simp_all
  let ?w' = "run [WindowUnload] w"
  have "\<exists>w3. unload i w2 = Normal w3 \<and> unload_ran (apps w3 ! i)"
  proof (cases "unload_ran a")
    case True
    then have "unload i w2 = Normal w2" using A2 by (simp add: unload_def)
    then show ?thesis using True A2 by simp
  next
    case False
    from unload_early [OF L2 A2 assms(4) False] L2 show ?thesis by simp
  qed
  then obtain w3 where U: "unload i w2 = Normal w3" and R3: "unload_ran (apps w3 ! i)" by blast
  have "keeps i w3 (world_of (window_unload w))" using D U by blast
  then have R: "unload_ran (apps ?w' ! i)" using R3 by (simp add: keeps_def)
  have M: "moves w ?w'" using run_moves [OF LO] .
  have I': "inv ?w'" using moves_inv [OF M I] .
  have L': "i < length (apps ?w')" using moves_length [OF M] assms(2) by simp
  have N': "\<not> hasInitialized (apps ?w' ! i)"
    using assms(3,4) window_unload_hasInitialized [OF LO, of i] by simp
  have "app_ok i (apps ?w' ! i) (trace ?w')" using I' L' by (simp add: inv_def)
  then have Z: "called i PEnd (trace ?w') = 0" "emitted i ''end'' (trace ?w') = 0"
    using N' by (simp_all add: app_ok_def)
  have "called i PEnd (trace (run (WindowUnload # more) w)) = 0 \<and>
        emitted i ''end'' (trace (run (WindowUnload # more) w)) = 0" for more
  proof -
    have "keeps i ?w' (run more ?w')" using I' L' by (rule run_keeps)
    then have "called i PEnd (trace (run more ?w')) = 0 \<and> emitted i ''end'' (trace (run more ?w')) = 0"
      using R Z by (simp add: keeps_def)
    then show ?thesis by simp
  qed
  then show ?thesis using R by blast
qed

lemma early_unload_never_ends_page:
  "\<not> hasInitialized (apps loaded ! 0) \<and> autoEnd (apps loaded ! 0) \<and>
   unload_ran (apps (run [WindowUnload] loaded) ! 0) \<and>
   hasInitialized (apps (run [WindowUnload, End 0 bye, Ignite 0] loaded) ! 0) \<and>
   called 0 PEnd (trace (run [WindowUnload, End 0 bye, Ignite 0, Smother 0 NoOpts, WindowUnload]
     loaded)) = 0 \<and>
   emitted 0 ''end'' (trace (run [WindowUnload, End 0 bye, Ignite 0, Smother 0 NoOpts, WindowUnload]
     loaded)) = 0"
proof -
  have 1: "loaded = run [NewApp True True] empty_world" by (simp add: loaded_def)
  have 2: "0 < length (apps loaded)" by (simp add: loaded_eval)
  have H: "\<not> hasInitialized (apps loaded ! 0)" "autoEnd (apps loaded ! 0)"
    by (simp_all add: loaded_eval fresh_app_def)
  have R: "each (takeWhile (\<lambda>j. j \<noteq> 0) (onWindowUnload loaded)) unload loaded = Normal loaded"
    by (simp add: loaded_eval)
  have G: "hasInitialized (apps (run [WindowUnload, End 0 bye, Ignite 0] loaded) ! 0)"
    by (simp add: loaded_def exec bye_def)
  from early_unload_never_ends [OF 1 2 refl H R]
  have A: "unload_ran (apps (run [WindowUnload] loaded) ! 0)"
    and B: "\<forall>more. called 0 PEnd (trace (run (WindowUnload # more) loaded)) = 0 \<and>
        emitted 0 ''end'' (trace (run (WindowUnload # more) loaded)) = 0"
    by blast+
  from B have "called 0 PEnd (trace (run (WindowUnload # [End 0 bye, Ignite 0, Smother 0 NoOpts,
      WindowUnload]) loaded)) = 0 \<and>
    emitted 0 ''end'' (trace (run (WindowUnload # [End 0 bye, Ignite 0, Smother 0 NoOpts,
      WindowUnload]) loaded)) = 0" by blast
  then show ?thesis using H A G by blast
qed

text \<open>
  Where the one shot has not been spent in that way, a silent \<open>smother\<close> keeps it. In a
  state that a run reaches, take an initialized App. \<open>smother({isSilent: true})\<close> returns
  the state unchanged. If the one-shot \<open>_unload\<close> of the App has not been called before,
  the App has neither called its end callback nor emitted \<open>end\<close>, and after the silent
  \<open>smother\<close> a \<open>smother()\<close> ends the App: with a registered end callback that returns, it
  calls the callback with the App and its config and emits \<open>end\<close>; with no end callback
  registered it emits \<open>end\<close> only; and whatever follows, the App has emitted \<open>end\<close> exactly
  once and called its end callback exactly once, if it has one. The same holds when the
  unload event of the window comes after the silent \<open>smother\<close> instead, the App has
  \<open>autoEnd\<close>, and the event is delivered to the App's listener (the listeners subscribed
  before it return). If the one shot has been called before, nothing that follows the
  silent \<open>smother\<close> makes the App call its end callback or emit \<open>end\<close> again.
\<close>

lemma silent_smother_keeps_one_shot:
  assumes "w = run acts empty_world" and "i < length (apps w)" and "a = apps w ! i"
    and "hasInitialized a"
  shows "smother i (Opts (Some True)) w = Normal w \<and>
     run [Smother i (Opts (Some True))] w = w \<and>
     (\<not> unload_ran a \<longrightarrow> called i PEnd (trace w) = 0 \<and> emitted i ''end'' (trace w) = 0) \<and>
     (\<not> unload_ran a \<and> endCall a = Fn n f \<and> f (config a) = Returns c \<longrightarrow>
        smother i NoOpts w = Normal (w\<lparr>apps := (apps w)[i := a\<lparr>unload_ran := True, config := c\<rparr>],
          trace := trace w @ [Called i PEnd n (config a), Emit i ''end'' None True]\<rparr>)) \<and>
     (\<not> unload_ran a \<and> \<not> is_truthy (endCall a) \<longrightarrow>
        smother i NoOpts w = Normal (w\<lparr>apps := (apps w)[i := a\<lparr>unload_ran := True\<rparr>],
          trace := trace w @ [Emit i ''end'' None True]\<rparr>)) \<and>
     (\<not> unload_ran a \<and> (endCall a = Fn n f \<and> f (config a) = Returns c \<or> \<not> is_truthy (endCall a)) \<longrightarrow>
        (\<forall>more. called i PEnd (trace (run (Smother i (Opts (Some True)) # Smother i NoOpts # more) w)) =
             (if is_truthy (endCall a) then 1 else 0) \<and>
           emitted i ''end'' (trace (run (Smother i (Opts (Some True)) # Smother i NoOpts # more) w)) = 1) \<and>
        (autoEnd a \<and> (\<exists>w2. each (takeWhile (\<lambda>j. j \<noteq> i) (onWindowUnload w)) unload w = Normal w2) \<longrightarrow>
           (\<forall>more. called i PEnd (trace (run (Smother i (Opts (Some True)) # WindowUnload # more) w)) =
                (if is_truthy (endCall a) then 1 else 0) \<and>
              emitted i ''end'' (trace (run (Smother i (Opts (Some True)) # WindowUnload # more) w)) = 1))) \<and>
     (unload_ran a \<longrightarrow>
        (\<forall>more. called i PEnd (trace (run (Smother i (Opts (Some True)) # more) w)) = called i PEnd (trace w) \<and>
           emitted i ''end'' (trace (run (Smother i (Opts (Some True)) # more) w)) = emitted i ''end'' (trace w)))"
proof -
  let ?k = "if is_truthy (endCall a) then 1 else 0 :: nat"
  have I: "inv w" unfolding assms(1) by (rule run_inv)
  have LO: "listeners_ok w" using I by (simp add: inv_def)
  have OK: "app_ok i (apps w ! i) (trace w)" using I assms(2) by (simp add: inv_def)
  have Z: "called i PEnd (trace w) = 0" "emitted i ''end'' (trace w) = 0" if "\<not> unload_ran a"
    using OK assms(3) that by (simp_all add: app_ok_def)
  have 1: "smother i (Opts (Some True)) w = Normal w" by (simp add: smother_def)
  have 2: "run [Smother i (Opts (Some True))] w = w" by (simp add: on_app_def 1)
  have S: "smother i NoOpts w' = unload i w'" if "apps w' ! i = a" for w'
    using that assms(4) by (simp add: smother_def)
  have 3: "smother i NoOpts w = Normal (w\<lparr>apps := (apps w)[i := a\<lparr>unload_ran := True, config := c\<rparr>],
          trace := trace w @ [Called i PEnd n (config a), Emit i ''end'' None True]\<rparr>)"
    if "\<not> unload_ran a \<and> endCall a = Fn n f \<and> f (config a) = Returns c"
    using that unload_fires [OF assms(2,3,4), of n f c] S [of w] assms(3) by simp
  have 4: "smother i NoOpts w = Normal (w\<lparr>apps := (apps w)[i := a\<lparr>unload_ran := True\<rparr>],
          trace := trace w @ [Emit i ''end'' None True]\<rparr>)"
    if "\<not> unload_ran a \<and> \<not> is_truthy (endCall a)"
    using that unload_fires_plain [OF assms(2,3,4)] S [of w] assms(3) by simp
  have fires: "\<exists>w3. unload i w' = Normal w3 \<and> length (apps w3) = length (apps w') \<and>
      unload_ran (apps w3 ! i) \<and>
      called i PEnd (trace w3) = called i PEnd (trace w') + ?k \<and>
      emitted i ''end'' (trace w3) = emitted i ''end'' (trace w') + 1"
    if N: "\<not> unload_ran a"
      and C: "endCall a = Fn n f \<and> f (config a) = Returns c \<or> \<not> is_truthy (endCall a)"
      and W: "i < length (apps w')" "a = apps w' ! i" for w'
  proof (cases "is_truthy (endCall a)")
    case True
    then have F: "endCall a = Fn n f" "f (config a) = Returns c" using C by simp_all
    show ?thesis using unload_fires [OF W assms(4) N F] W(1) True by simp
  next
    case False
    show ?thesis using unload_fires_plain [OF W assms(4) N False] W(1) False by simp
  qed
  have after: "called i PEnd (trace (run more w')) = ?k \<and> emitted i ''end'' (trace (run more w')) = 1"
    if "moves w w'" "unload_ran (apps w' ! i)" "called i PEnd (trace w') = ?k"
      "emitted i ''end'' (trace w') = 1" for w' more
  proof -
    have "inv w'" using moves_inv [OF that(1) I] .
    moreover have "i < length (apps w')" using moves_length [OF that(1)] assms(2) by simp
    ultimately have "keeps i w' (run more w')" by (rule run_keeps)
    then show ?thesis using that(2,3,4) by (simp add: keeps_def)
  qed
  have 5: "called i PEnd (trace (run (Smother i (Opts (Some True)) # Smother i NoOpts # more) w)) = ?k \<and>
        emitted i ''end'' (trace (run (Smother i (Opts (Some True)) # Smother i NoOpts # more) w)) = 1"
    if N: "\<not> unload_ran a"
      and C: "endCall a = Fn n f \<and> f (config a) = Returns c \<or> \<not> is_truthy (endCall a)"
    for more
  proof -
    from fires [OF N C assms(2,3)] obtain w3 where U: "unload i w = Normal w3"
      and R: "unload_ran (apps w3 ! i)"
      and K: "called i PEnd (trace w3) = called i PEnd (trace w) + ?k"
        "emitted i ''end'' (trace w3) = emitted i ''end'' (trace w) + 1"
      by blast
    have U': "smother i NoOpts w = Normal w3" using S [of w] U assms(3) by simp
    have E: "run (Smother i (Opts (Some True)) # Smother i NoOpts # more) w = run more w3"
      using assms(2) 1 U' by (simp add: on_app_def)
    have "moves w (run [Smother i NoOpts] w)" using run_moves [OF LO] .
    then have M: "moves w w3" using assms(2) U' by (simp add: on_app_def)
    have K': "called i PEnd (trace w3) = ?k" "emitted i ''end'' (trace w3) = 1"
      using K Z [OF N] by simp_all
    show ?thesis unfolding E using M R K' by (rule after)
  qed
  have 6: "called i PEnd (trace (run (Smother i (Opts (Some True)) # WindowUnload # more) w)) = ?k \<and>
           emitted i ''end'' (trace (run (Smother i (Opts (Some True)) # WindowUnload # more) w)) = 1"
    if N: "\<not> unload_ran a"
      and C: "endCall a = Fn n f \<and> f (config a) = Returns c \<or> \<not> is_truthy (endCall a)"
      and H: "autoEnd a \<and> (\<exists>w2. each (takeWhile (\<lambda>j. j \<noteq> i) (onWindowUnload w)) unload w = Normal w2)"
    for more
  proof -
    from H obtain w2 where R: "each (takeWhile (\<lambda>j. j \<noteq> i) (onWindowUnload w)) unload w = Normal w2"
      by blast
    have "end_bound w" unfolding assms(1) by (rule reachable_end_bound)
    then have B: "i \<in> set (onWindowUnload w)" using H assms(2,3) by (simp add: end_bound_def)
    note D = dispatch_unload [OF I assms(2) B R]
    have L2: "i < length (apps w2)" and A2: "a = apps w2 ! i" using D assms(2,3) by simp_all
    from fires [OF N C L2 A2] obtain w3 where U: "unload i w2 = Normal w3"
      and R3: "unload_ran (apps w3 ! i)"
      and K: "called i PEnd (trace w3) = called i PEnd (trace w2) + ?k"
        "emitted i ''end'' (trace w3) = emitted i ''end'' (trace w2) + 1"
      by blast
    have K3: "keeps i w3 (world_of (window_unload w))" using D U by blast
    let ?w' = "run [WindowUnload] w"
    have K': "called i PEnd (trace w3) = ?k" "emitted i ''end'' (trace w3) = 1"
      using K D Z [OF N] by simp_all
    have Q: "unload_ran (apps ?w' ! i)" "called i PEnd (trace ?w') = ?k"
      "emitted i ''end'' (trace ?w') = 1"
      using K3 R3 K' by (simp_all add: keeps_def)
    have E: "run (Smother i (Opts (Some True)) # WindowUnload # more) w = run more ?w'"
      using assms(2) 1 by (simp add: on_app_def)
    have M: "moves w ?w'" using run_moves [OF LO] .
    show ?thesis unfolding E using M Q by (rule after)
  qed
  have 7: "called i PEnd (trace (run (Smother i (Opts (Some True)) # more) w)) = called i PEnd (trace w) \<and>
           emitted i ''end'' (trace (run (Smother i (Opts (Some True)) # more) w)) = emitted i ''end'' (trace w)"
    if "unload_ran a" for more
  proof -
    have E: "run (Smother i (Opts (Some True)) # more) w = run more w"
      using assms(2) 1 by (simp add: on_app_def)
    have "keeps i w (run more w)" using I assms(2) by (rule run_keeps)
    then show ?thesis unfolding E using that assms(3) by (simp add: keeps_def)
  qed
  have Z': "\<not> unload_ran a \<longrightarrow> called i PEnd (trace w) = 0 \<and> emitted i ''end'' (trace w) = 0"
    using Z by blast
  have I3: "\<not> unload_ran a \<and> endCall a = Fn n f \<and> f (config a) = Returns c \<longrightarrow>
        smother i NoOpts w = Normal (w\<lparr>apps := (apps w)[i := a\<lparr>unload_ran := True, config := c\<rparr>],
          trace := trace w @ [Called i PEnd n (config a), Emit i ''end'' None True]\<rparr>)"
    by (intro impI) (erule 3)
  have I4: "\<not> unload_ran a \<and> \<not> is_truthy (endCall a) \<longrightarrow>
        smother i NoOpts w = Normal (w\<lparr>apps := (apps w)[i := a\<lparr>unload_ran := True\<rparr>],
          trace := trace w @ [Emit i ''end'' None True]\<rparr>)"
    by (intro impI) (erule 4)
  have 56: "\<not> unload_ran a \<and> (endCall a = Fn n f \<and> f (config a) = Returns c \<or> \<not> is_truthy (endCall a)) \<longrightarrow>
        (\<forall>more. called i PEnd (trace (run (Smother i (Opts (Some True)) # Smother i NoOpts # more) w)) =
             (if is_truthy (endCall a) then 1 else 0) \<and>
           emitted i ''end'' (trace (run (Smother i (Opts (Some True)) # Smother i NoOpts # more) w)) = 1) \<and>
        (autoEnd a \<and> (\<exists>w2. each (takeWhile (\<lambda>j. j \<noteq> i) (onWindowUnload w)) unload w = Normal w2) \<longrightarrow>
           (\<forall>more. called i PEnd (trace (run (Smother i (Opts (Some True)) # WindowUnload # more) w)) =
                (if is_truthy (endCall a) then 1 else 0) \<and>
              emitted i ''end'' (trace (run (Smother i (Opts (Some True)) # WindowUnload # more) w)) = 1))"
  proof (intro impI)
    assume A: "\<not> unload_ran a \<and> (endCall a = Fn n f \<and> f (config a) = Returns c \<or> \<not> is_truthy (endCall a))"
    then have N: "\<not> unload_ran a"
      and C: "endCall a = Fn n f \<and> f (config a) = Returns c \<or> \<not> is_truthy (endCall a)"
      by blast+
    have P: "\<forall>more. called i PEnd (trace (run (Smother i (Opts (Some True)) # Smother i NoOpts # more) w)) =
             (if is_truthy (endCall a) then 1 else 0) \<and>
           emitted i ''end'' (trace (run (Smother i (Opts (Some True)) # Smother i NoOpts # more) w)) = 1"
      by (intro allI) (rule 5 [OF N C])
    have Q: "autoEnd a \<and> (\<exists>w2. each (takeWhile (\<lambda>j. j \<noteq> i) (onWindowUnload w)) unload w = Normal w2) \<longrightarrow>
           (\<forall>more. called i PEnd (trace (run (Smother i (Opts (Some True)) # WindowUnload # more) w)) =
                (if is_truthy (endCall a) then 1 else 0) \<and>
              emitted i ''end'' (trace (run (Smother i (Opts (Some True)) # WindowUnload # more) w)) = 1)"
      by (intro impI allI) (rule 6 [OF N C], assumption)
    show "(\<forall>more. called i PEnd (trace (run (Smother i (Opts (Some True)) # Smother i NoOpts # more) w)) =
             (if is_truthy (endCall a) then 1 else 0) \<and>
           emitted i ''end'' (trace (run (Smother i (Opts (Some True)) # Smother i NoOpts # more) w)) = 1) \<and>
        (autoEnd a \<and> (\<exists>w2. each (takeWhile (\<lambda>j. j \<noteq> i) (onWindowUnload w)) unload w = Normal w2) \<longrightarrow>
           (\<forall>more. called i PEnd (trace (run (Smother i (Opts (Some True)) # WindowUnload # more) w)) =
                (if is_truthy (endCall a) then 1 else 0) \<and>
              emitted i ''end'' (trace (run (Smother i (Opts (Some True)) # WindowUnload # more) w)) = 1))"
      using P Q by (rule conjI)
  qed
  have I7: "unload_ran a \<longrightarrow>
        (\<forall>more. called i PEnd (trace (run (Smother i (Opts (Some True)) # more) w)) = called i PEnd (trace w) \<and>
           emitted i ''end'' (trace (run (Smother i (Opts (Some True)) # more) w)) = emitted i ''end'' (trace w))"
    by (intro impI allI) (erule 7)
  show ?thesis
    apply (intro conjI)
          apply (rule 1)
         apply (rule 2)
        apply (rule Z')
       apply (rule I3)
      apply (rule I4)
     apply (rule 56)
    apply (rule I7)
    done
qed

lemma silent_smother_keeps_one_shot_page:
  "hasInitialized (apps page_started ! 0) \<and> \<not> unload_ran (apps page_started ! 0) \<and>
   autoEnd (apps page_started ! 0) \<and>
   run [Smother 0 (Opts (Some True))] page_started = page_started \<and>
   called 0 PEnd (trace (run [Smother 0 (Opts (Some True)), Smother 0 NoOpts, Smother 0 NoOpts,
     WindowUnload] page_started)) = 1 \<and>
   emitted 0 ''end'' (trace (run [Smother 0 (Opts (Some True)), WindowUnload, Smother 0 NoOpts,
     WindowUnload] page_started)) = 1"
proof -
  let ?a = "apps page_started ! 0"
  have 1: "page_started = run [NewApp True True, End 0 bye, Ignite 0] empty_world"
    by (simp add: page_started_def)
  have 2: "0 < length (apps page_started)" by (simp add: page_started_eval)
  have H: "hasInitialized ?a" "\<not> unload_ran ?a" "endCall ?a = Fn ''bye'' (\<lambda>c. Returns c)"
    "(\<lambda>c. Returns c) (config ?a) = Returns []" "autoEnd ?a" "is_truthy (endCall ?a)"
    by (simp_all add: page_started_eval fresh_app_def bye_def)
  have R: "\<exists>w2. each (takeWhile (\<lambda>j. j \<noteq> 0) (onWindowUnload page_started)) unload page_started
      = Normal w2"
    by (simp add: page_started_eval)
  note T = silent_smother_keeps_one_shot [OF 1 2 refl H(1), of "''bye''" "\<lambda>c. Returns c" "[]"]
  from T have A: "run [Smother 0 (Opts (Some True))] page_started = page_started" by blast
  from T H(2,3,4,6)
  have B: "\<forall>more. called 0 PEnd (trace (run (Smother 0 (Opts (Some True)) # Smother 0 NoOpts # more)
        page_started)) = 1 \<and>
        emitted 0 ''end'' (trace (run (Smother 0 (Opts (Some True)) # Smother 0 NoOpts # more)
        page_started)) = 1"
    by (simp del: run.simps)
  from T H(2,3,4,5,6) R
  have C: "\<forall>more. called 0 PEnd (trace (run (Smother 0 (Opts (Some True)) # WindowUnload # more)
          page_started)) = 1 \<and>
           emitted 0 ''end'' (trace (run (Smother 0 (Opts (Some True)) # WindowUnload # more)
          page_started)) = 1"
    by (simp del: run.simps)
  from B have B': "called 0 PEnd (trace (run (Smother 0 (Opts (Some True)) # Smother 0 NoOpts #
      [Smother 0 NoOpts, WindowUnload]) page_started)) = 1" by blast
  from C have C': "emitted 0 ''end'' (trace (run (Smother 0 (Opts (Some True)) # WindowUnload #
      [Smother 0 NoOpts, WindowUnload]) page_started)) = 1" by blast
  show ?thesis using H(1,2,5) A B' C' by blast
qed

lemma silent_smother_keeps_one_shot_plain_page:
  "hasInitialized (apps (run [Ignite 0] loaded) ! 0) \<and>
   \<not> unload_ran (apps (run [Ignite 0] loaded) ! 0) \<and>
   \<not> is_truthy (endCall (apps (run [Ignite 0] loaded) ! 0)) \<and>
   called 0 PEnd (trace (run [Smother 0 (Opts (Some True)), Smother 0 NoOpts, Smother 0 NoOpts,
     WindowUnload] (run [Ignite 0] loaded))) = 0 \<and>
   emitted 0 ''end'' (trace (run [Smother 0 (Opts (Some True)), Smother 0 NoOpts, Smother 0 NoOpts,
     WindowUnload] (run [Ignite 0] loaded))) = 1"
proof -
  let ?w = "run [Ignite 0] loaded"
  let ?a = "apps ?w ! 0"
  have 1: "?w = run [NewApp True True, Ignite 0] empty_world" by (simp add: loaded_def)
  have 2: "0 < length (apps ?w)" by (simp add: loaded_def exec)
  have H: "hasInitialized ?a" "\<not> unload_ran ?a" "\<not> is_truthy (endCall ?a)"
    by (simp_all add: loaded_def exec)
  note T = silent_smother_keeps_one_shot [OF 1 2 refl H(1), of "''none''" "\<lambda>c. Returns c" "[]"]
  from T H(2,3)
  have B: "\<forall>more. called 0 PEnd (trace (run (Smother 0 (Opts (Some True)) # Smother 0 NoOpts # more)
        ?w)) = 0 \<and>
        emitted 0 ''end'' (trace (run (Smother 0 (Opts (Some True)) # Smother 0 NoOpts # more)
        ?w)) = 1"
    by (simp del: run.simps)
  from B have "called 0 PEnd (trace (run (Smother 0 (Opts (Some True)) # Smother 0 NoOpts #
      [Smother 0 NoOpts, WindowUnload]) ?w)) = 0 \<and>
    emitted 0 ''end'' (trace (run (Smother 0 (Opts (Some True)) # Smother 0 NoOpts #
      [Smother 0 NoOpts, WindowUnload]) ?w)) = 1" by blast
  then show ?thesis using H by simp
qed

section \<open>The claims\<close>

text \<open>
  Claim C1. In every state that a run of actions reaches from the initial values of the
  module's variables, and for every App of the registry: the body of \<open>_initialize\<close> has
  run at most once; it has run exactly when \<open>_hasInitialized\<close> is set. Every execution of
  the body emits
  \<open>setup:before\<close> once, so the number of these events counts the executions. Once the App
  is initialized, a further gating check returns the state unchanged, and whatever actions
  follow (the document becoming ready, \<open>ignite\<close>, \<open>App.unlock\<close>, any other), the flag
  stays set and the App emits no further lifecycle event and calls no further setup or
  start callback.
\<close>

theorem initialize_at_most_once:
  assumes "i < length (apps (run acts empty_world))"
  shows "let w = run acts empty_world; a = apps w ! i in
     emitted i ''setup:before'' (trace w) \<le> 1 \<and>
     (emitted i ''setup:before'' (trace w) = 1 \<longleftrightarrow> hasInitialized a) \<and>
     (\<forall>w'. i < length (apps w') \<longrightarrow>
        emitted i ''setup:before'' (trace (world_of (initialize_body i w'))) =
          emitted i ''setup:before'' (trace w') + 1) \<and>
     (hasInitialized a \<longrightarrow>
        check i w = Normal w \<and>
        (\<forall>more. hasInitialized (apps (run more w) ! i) \<and>
           (\<forall>ev. ev \<noteq> ''end'' \<longrightarrow> emitted i ev (trace (run more w)) = emitted i ev (trace w)) \<and>
           (\<forall>ph. ph \<noteq> PEnd \<longrightarrow> called i ph (trace (run more w)) = called i ph (trace w))))"
proof -
  define w where "w = run acts empty_world"
  have I: "inv w" unfolding w_def by (rule run_inv)
  have L: "i < length (apps w)" using assms by (simp add: w_def)
  have OK: "app_ok i (apps w ! i) (trace w)" using I L by (simp add: inv_def)
  have 1: "emitted i ''setup:before'' (trace w) \<le> 1" using OK by (simp add: app_ok_def)
  have 2: "emitted i ''setup:before'' (trace w) = 1 \<longleftrightarrow> hasInitialized (apps w ! i)"
    using OK by (auto simp: app_ok_def)
  have 3: "emitted i ''setup:before'' (trace (world_of (initialize_body i w'))) =
          emitted i ''setup:before'' (trace w') + 1" if "i < length (apps w')" for w'
  proof -
    obtain es a' r where R: "init_local i (apps w' ! i) = (es, a', r)" by (metis prod_cases3)
    show ?thesis using init_local_trace(1) [OF R]
      by (simp add: initialize_body_local [OF that] R world_of_lift)
  qed
  have 4: "check i w = Normal w" if "hasInitialized (apps w ! i)"
    using that OK by (simp add: check_def initialize_def app_ok_def)
  have 5: "hasInitialized (apps (run more w) ! i) \<and>
           (\<forall>ev. ev \<noteq> ''end'' \<longrightarrow> emitted i ev (trace (run more w)) = emitted i ev (trace w)) \<and>
           (\<forall>ph. ph \<noteq> PEnd \<longrightarrow> called i ph (trace (run more w)) = called i ph (trace w))"
    if "hasInitialized (apps w ! i)" for more
    using run_keeps [OF I L, of more] that OK by (simp add: keeps_def app_ok_def)
  show ?thesis unfolding Let_def w_def [symmetric] using 1 2 3 4 5 by blast
qed

theorem initialize_at_most_once_witness:
  "0 < length (apps (run [NewApp True True, DocumentReady, Ignite 0, Lock, Unlock] empty_world)) \<and>
   emitted 0 ''setup:before'' (trace (run [NewApp True True, DocumentReady, Ignite 0, Lock, Unlock] empty_world)) = 1 \<and>
   hasInitialized (apps (run [NewApp True True, DocumentReady, Ignite 0, Lock, Unlock] empty_world) ! 0)"
proof -
  have L: "0 < length (apps (run [NewApp True True, DocumentReady, Ignite 0, Lock, Unlock] empty_world))"
    by (simp add: exec)
  have H: "hasInitialized (apps (run [NewApp True True, DocumentReady, Ignite 0, Lock, Unlock] empty_world) ! 0)"
    by (simp add: exec)
  from initialize_at_most_once [OF L] L H show ?thesis by (simp add: Let_def)
qed

text \<open>
  Claim C2, at a failing input. The page has loaded the module, so the base App exists,
  with \<open>autoEnd\<close>; it is not initialized. The window announces its unloading. The claim
  takes the event for a no-op on such an App, as \<open>smother\<close> is (guard of line 201). In the
  code the event calls the \<open>_.once\<close> wrapper of \<open>_unload\<close>: the body returns at the guard
  of line 267, nothing is called or emitted, but the one shot is spent and the state is
  another one. When the App is ignited afterwards it initializes, and then neither
  \<open>smother()\<close> nor a further unload event ends it: \<open>end\<close> is never emitted. The same App
  with a \<open>smother()\<close> in the place of the early event ends as it should.
\<close>

theorem early_unload_spends_one_shot:
  "\<not> hasInitialized (apps loaded ! 0) \<and> \<not> unload_ran (apps loaded ! 0) \<and>
   smother 0 NoOpts loaded = Normal loaded \<and>
   run [WindowUnload] loaded = loaded\<lparr>apps := [(fresh_app True True)\<lparr>unload_ran := True\<rparr>]\<rparr> \<and>
   run [WindowUnload] loaded \<noteq> loaded \<and>
   trace (run [WindowUnload] loaded) = [] \<and>
   hasInitialized (apps (run [WindowUnload, Ignite 0] loaded) ! 0) \<and>
   emitted 0 ''end'' (trace (run [WindowUnload, Ignite 0, Smother 0 NoOpts, WindowUnload] loaded)) = 0 \<and>
   emitted 0 ''end'' (trace (run [Smother 0 NoOpts, Ignite 0, Smother 0 NoOpts, WindowUnload] loaded)) = 1"
  by (simp add: loaded_def exec)

text \<open>
  Claim C3. In every state that a run reaches and for every App of the registry: the
  gating check runs the one-shot \<open>_initialize\<close> exactly when the lock counter is not greater
  than zero and the App is ignited or the document is ready, and otherwise returns the
  state unchanged; so after the check the App is initialized exactly when it was before or
  that condition holds. While the counter is greater than zero the check does nothing.
  When the counter stands at \<open>n > 0\<close>, fewer than \<open>n\<close> calls of \<open>App.unlock\<close> change
  nothing but the counter, and the \<open>n\<close>-th call leaves an App initialized whose condition
  was otherwise satisfied, provided the broadcast reaches it (\<open>_.each\<close> ends at the first
  App whose callback throws).
\<close>

theorem gating_check:
  assumes "i < length (apps (run acts empty_world))"
  shows "let w = run acts empty_world; a = apps w ! i;
             ready = (isIgnited a \<or> isDocReady w) in
     check i w = (if \<not> lockBarrier w > 0 \<and> ready then initialize i w else Normal w) \<and>
     (hasInitialized (apps (world_of (check i w)) ! i) \<longleftrightarrow>
        hasInitialized a \<or> (\<not> lockBarrier w > 0 \<and> ready)) \<and>
     (lockBarrier w > 0 \<longrightarrow> check i w = Normal w) \<and>
     (\<forall>k. int k < lockBarrier w \<longrightarrow>
        run (replicate k Unlock) w = w\<lparr>lockBarrier := lockBarrier w - int k\<rparr>) \<and>
     (\<forall>n. lockBarrier w = int (Suc n) \<and> ready \<and>
          (\<exists>w2. each [0 ..< i] check (w\<lparr>lockBarrier := 0\<rparr>) = Normal w2) \<longrightarrow>
        hasInitialized (apps (run (replicate (Suc n) Unlock) w) ! i))"
proof -
  define w where "w = run acts empty_world"
  have I: "inv w" unfolding w_def by (rule run_inv)
  have L: "i < length (apps w)" using assms by (simp add: w_def)
  let ?ready = "isIgnited (apps w ! i) \<or> isDocReady w"
  have 1: "check i w = (if \<not> lockBarrier w > 0 \<and> ?ready then initialize i w else Normal w)"
    by (simp add: check_def)
  have 2: "hasInitialized (apps (world_of (check i w)) ! i) \<longleftrightarrow>
        hasInitialized (apps w ! i) \<or> (\<not> lockBarrier w > 0 \<and> ?ready)"
    by (rule check_initializes [OF I L])
  have 3: "lockBarrier w > 0 \<longrightarrow> check i w = Normal w" by (simp add: check_def)
  have 4: "run (replicate k Unlock) w = w\<lparr>lockBarrier := lockBarrier w - int k\<rparr>"
    if "int k < lockBarrier w" for k using that by (rule unlocks_while_locked)
  have 5: "hasInitialized (apps (run (replicate (Suc n) Unlock) w) ! i)"
    if N: "lockBarrier w = int (Suc n)" and R: ?ready
      and E: "each [0 ..< i] check (w\<lparr>lockBarrier := 0\<rparr>) = Normal w2" for n w2
  proof -
    let ?w0 = "w\<lparr>lockBarrier := 0\<rparr>"
    have "int n < lockBarrier w" using N by simp
    then have A: "run (replicate n Unlock) w = w\<lparr>lockBarrier := 1\<rparr>"
      using unlocks_while_locked [of n w] N by simp
    have "replicate (Suc n) Unlock = replicate n Unlock @ [Unlock]"
      by (simp add: replicate_append_same)
    then have B: "run (replicate (Suc n) Unlock) w = settle (runChecks ?w0)"
      using A by (simp add: run_append unlock_def del: replicate_Suc)
    have "inv ?w0" using I by (simp add: inv_def listeners_ok_def)
    from broadcast_reaches [OF this, of i w2] L R E
    have "hasInitialized (apps (world_of (runChecks ?w0)) ! i)" by simp
    then show ?thesis unfolding B by simp
  qed
  show ?thesis unfolding Let_def w_def [symmetric] using 1 2 3 4 5 by blast
qed

theorem gating_check_witness:
  "0 < length (apps (run [NewApp True True, Lock, Lock, DocumentReady] empty_world)) \<and>
   \<not> hasInitialized (apps (run [NewApp True True, Lock, Lock, DocumentReady] empty_world) ! 0) \<and>
   \<not> hasInitialized (apps (run [Unlock] (run [NewApp True True, Lock, Lock, DocumentReady] empty_world)) ! 0) \<and>
   hasInitialized (apps (run [Unlock, Unlock] (run [NewApp True True, Lock, Lock, DocumentReady] empty_world)) ! 0)"
proof -
  let ?w = "run [NewApp True True, Lock, Lock, DocumentReady] empty_world"
  have L: "0 < length (apps ?w)" by (simp add: exec)
  have B: "lockBarrier ?w = int (Suc 1)" by (simp add: exec)
  have R: "isDocReady ?w" by (simp add: exec)
  have N: "\<not> hasInitialized (apps ?w ! 0)" by (simp add: exec)
  have E: "each [0 ..< 0] check (?w\<lparr>lockBarrier := 0\<rparr>) = Normal (?w\<lparr>lockBarrier := 0\<rparr>)" by simp
  have K: "int 1 < lockBarrier ?w" using B by simp
  from gating_check [OF L] have
    G1: "\<forall>k. int k < lockBarrier ?w \<longrightarrow>
        run (replicate k Unlock) ?w = ?w\<lparr>lockBarrier := lockBarrier ?w - int k\<rparr>"
    and G2: "\<forall>n. lockBarrier ?w = int (Suc n) \<and> (isIgnited (apps ?w ! 0) \<or> isDocReady ?w) \<and>
          (\<exists>w2. each [0 ..< 0] check (?w\<lparr>lockBarrier := 0\<rparr>) = Normal w2) \<longrightarrow>
        hasInitialized (apps (run (replicate (Suc n) Unlock) ?w) ! 0)"
    unfolding Let_def by blast+
  have "run (replicate 1 Unlock) ?w = ?w\<lparr>lockBarrier := lockBarrier ?w - int 1\<rparr>"
    using G1 K by blast
  then have U1: "\<not> hasInitialized (apps (run [Unlock] ?w) ! 0)" using N by simp
  have "hasInitialized (apps (run (replicate (Suc 1) Unlock) ?w) ! 0)"
    using G2 B R E by blast
  then have U2: "hasInitialized (apps (run [Unlock, Unlock] ?w) ! 0)"
    by (simp add: numeral_2_eq_2)
  show ?thesis using L N U1 U2 by blast
qed

text \<open>
  Claim C4. Take a state that a run reaches and an App of it that is not initialized, whose
  queued setup callbacks all return (\<open>es\<close> their calls, \<open>c1\<close> the config they leave) and
  whose start callback, or the no-op put in its place when none is registered, returns.
  Then the one-shot \<open>_initialize\<close> returns normally and appends to the trace, in this
  order: \<open>setup:before\<close> with the config, seen with \<open>_hasInitialized\<close> already true; one
  call for every queued setup callback, in the order of registration, the \<open>k\<close>-th with the
  config that the first \<open>k\<close> callbacks left; \<open>setup:after\<close> and \<open>start:before\<close> with the
  config \<open>c1\<close>; the call of the start callback with \<open>c1\<close>; \<open>start:after\<close>. Afterwards
  the queue is empty, the start callback is \<open>null\<close> and the flag is set. Each of the four
  events had not been emitted by the App before and has been emitted exactly once after.
\<close>

theorem initialization_order:
  assumes "w = run acts empty_world" and "i < length (apps w)" and "a = apps w ! i"
    and "\<not> hasInitialized a"
    and "sc = (if is_truthy (startCall a) then startCall a else noop)"
    and "run_cbs i PSetup (setupCalls a) (config a) = (es, c1, None)"
    and "run_cbs i PStart [sc] c1 = (es2, c2, None)"
  shows "initialize i w = Normal (w\<lparr>apps := (apps w)[i := a\<lparr>initialize_ran := True,
             hasInitialized := True, config := c2, setupCalls := [], startCall := NotFn JNull\<rparr>],
           trace := trace w @ [Emit i ''setup:before'' (Some (config a)) True] @ es @
             [Emit i ''setup:after'' (Some c1) True, Emit i ''start:before'' (Some c1) True] @
             es2 @ [Emit i ''start:after'' (Some c2) True]\<rparr>) \<and>
     length es = length (setupCalls a) \<and>
     (\<forall>k < length (setupCalls a). es ! k = Called i PSetup (fn_name (setupCalls a ! k))
        (config_after i PSetup (take k (setupCalls a)) (config a))) \<and>
     c1 = config_after i PSetup (setupCalls a) (config a) \<and>
     es2 = [Called i PStart (fn_name sc) c1] \<and>
     (\<not> is_truthy (startCall a) \<longrightarrow> fn_name sc = [] \<and> c2 = c1) \<and>
     (\<forall>ev \<in> {''setup:before'', ''setup:after'', ''start:before'', ''start:after''}.
        emitted i ev (trace w) = 0 \<and> emitted i ev (trace (world_of (initialize i w))) = 1)"
proof -
  have I: "inv w" unfolding assms(1) by (rule run_inv)
  have OK: "app_ok i a (trace w)" using I assms(2,3) by (simp add: inv_def)
  have NR: "\<not> initialize_ran (apps w ! i)" using OK assms(3,4) by (simp add: app_ok_def)
  have Z: "emitted i ev (trace w) = 0" for ev using OK NR assms(3) by (simp add: app_ok_def)
  have E1: "emitted i ev es = 0" for ev
    using run_cbs_emitted [of i ev i PSetup "setupCalls a" "config a"] assms(6) by simp
  have E2: "emitted i ev es2 = 0" for ev
    using run_cbs_emitted [of i ev i PStart "[sc]" c1] assms(7) by simp
  have L: "init_local i (a\<lparr>initialize_ran := True\<rparr>) =
     ([Emit i ''setup:before'' (Some (config a)) True] @ es @
             [Emit i ''setup:after'' (Some c1) True, Emit i ''start:before'' (Some c1) True] @
             es2 @ [Emit i ''start:after'' (Some c2) True],
      a\<lparr>initialize_ran := True,
             hasInitialized := True, config := c2, setupCalls := [], startCall := NotFn JNull\<rparr>, None)"
  proof (cases "is_truthy (startCall a)")
    case True
    then have "run_cbs i PStart [startCall a] c1 = (es2, c2, None)" using assms(5,7) by simp
    then show ?thesis using True assms(6) by (simp add: init_local_def Let_def)
  next
    case False
    then have "run_cbs i PStart [noop] c1 = (es2, c2, None)" using assms(5,7) by simp
    then show ?thesis using False assms(6) by (simp add: init_local_def Let_def)
  qed
  have 1: "initialize i w = Normal (w\<lparr>apps := (apps w)[i := a\<lparr>initialize_ran := True,
             hasInitialized := True, config := c2, setupCalls := [], startCall := NotFn JNull\<rparr>],
           trace := trace w @ [Emit i ''setup:before'' (Some (config a)) True] @ es @
             [Emit i ''setup:after'' (Some c1) True, Emit i ''start:before'' (Some c1) True] @
             es2 @ [Emit i ''start:after'' (Some c2) True]\<rparr>)"
    using initialize_first [OF assms(2) NR] L assms(3) by simp
  note S = run_cbs_returns [OF assms(6)]
  note T = run_cbs_returns [OF assms(7)]
  have 2: "es2 = [Called i PStart (fn_name sc) c1]"
  proof -
    have "length es2 = 1" "es2 ! 0 = Called i PStart (fn_name sc) c1"
      using T by (simp_all add: config_after_def)
    then show ?thesis by (cases es2) simp_all
  qed
  have 3: "fn_name sc = [] \<and> c2 = c1" if "\<not> is_truthy (startCall a)"
    using that assms(5,7) by (simp add: noop_def)
  have W: "trace (world_of (initialize i w)) =
      trace w @ [Emit i ''setup:before'' (Some (config a)) True] @ es @
             [Emit i ''setup:after'' (Some c1) True, Emit i ''start:before'' (Some c1) True] @
             es2 @ [Emit i ''start:after'' (Some c2) True]"
    by (simp add: 1)
  have 4: "\<forall>ev \<in> {''setup:before'', ''setup:after'', ''start:before'', ''start:after''}.
        emitted i ev (trace w) = 0 \<and> emitted i ev (trace (world_of (initialize i w))) = 1"
    unfolding W by (simp add: Z E1 E2)
  show ?thesis
    apply (intro conjI)
          apply (rule 1)
         apply (simp add: S)
        apply (simp add: S)
       apply (simp add: S)
      apply (rule 2)
     apply (simp add: 3)
    apply (rule 4)
    done
qed

theorem initialization_order_witness:
  "\<not> hasInitialized (apps page1 ! 0) \<and>
   trace (world_of (initialize 0 page1)) =
     [Emit 0 ''setup:before'' (Some []) True,
      Called 0 PSetup ''s1'' [],
      Called 0 PSetup ''s2'' [(''a'', JNum 1)],
      Emit 0 ''setup:after'' (Some [(''a'', JNum 1), (''b'', JNum 2)]) True,
      Emit 0 ''start:before'' (Some [(''a'', JNum 1), (''b'', JNum 2)]) True,
      Called 0 PStart ''go'' [(''a'', JNum 1), (''b'', JNum 2)],
      Emit 0 ''start:after'' (Some [(''a'', JNum 1), (''b'', JNum 2)]) True]"
proof -
  let ?a = "apps page1 ! 0"
  have A: "?a = (fresh_app True True)\<lparr>setupCalls := [s1, s2], startCall := go\<rparr>"
    and T: "trace page1 = []"
    by (simp_all add: page1_def exec s1_def s2_def go_def)
  have 1: "page1 = run [NewApp True True, Setup 0 s1, Setup 0 s2, Start 0 go] empty_world"
    by (simp add: page1_def)
  have 2: "0 < length (apps page1)" by (simp add: page1_def exec)
  have 4: "\<not> hasInitialized ?a" by (simp add: A fresh_app_def)
  have 5: "go = (if is_truthy (startCall ?a) then startCall ?a else noop)"
    by (simp add: A go_def)
  have 6: "run_cbs 0 PSetup (setupCalls ?a) (config ?a) =
      ([Called 0 PSetup ''s1'' [], Called 0 PSetup ''s2'' [(''a'', JNum 1)]],
       [(''a'', JNum 1), (''b'', JNum 2)], None)"
    by (simp add: A fresh_app_def s1_def s2_def)
  have 7: "run_cbs 0 PStart [go] [(''a'', JNum 1), (''b'', JNum 2)] =
      ([Called 0 PStart ''go'' [(''a'', JNum 1), (''b'', JNum 2)]], [(''a'', JNum 1), (''b'', JNum 2)], None)"
    by (simp add: go_def)
  from initialization_order [OF 1 2 refl 4 5 6 7]
  show ?thesis using 4 by (simp add: T A fresh_app_def)
qed

text \<open>
  Claim C5, at a failing input. An App is constructed with \<open>autoStart = false\<close>; the document
  becomes ready, which leaves the App uninitialized; then \<open>App.lock()\<close> and \<open>App.unlock()\<close>
  are called. The broadcast of \<open>unlock\<close> checks every App of the registry, \<open>_check\<close> finds
  \<open>_isDocReady\<close> set, and the App is initialized although \<open>ignite\<close> was never called.
\<close>

theorem autoStart_false_initialized_by_unlock:
  "\<not> autoStart (apps page_manual ! 0) \<and>
   \<not> isIgnited (apps page_manual ! 0) \<and>
   \<not> hasInitialized (apps (run [NewApp False True, DocumentReady] empty_world) ! 0) \<and>
   hasInitialized (apps page_manual ! 0) \<and>
   emitted 0 ''start:after'' (trace page_manual) = 1"
  by (simp add: page_manual_def exec)

text \<open>
  Claim C6, as stated, fails: on an initialized App that has a registered end callback and
  was smothered once, \<open>smother()\<close> with no options calls and emits nothing; the state stays
  as it is.
\<close>

theorem smother_twice_counterexample:
  "hasInitialized (apps page_ended ! 0) \<and> endCall (apps page_ended ! 0) = bye \<and>
   smother 0 NoOpts page_ended = Normal page_ended"
  by (simp add: page_ended_def page_started_eval exec bye_def)

text \<open>
  Claim C6, amended. \<open>smother\<close> on an App that is not initialized returns the state
  unchanged, whatever the options. On an initialized App, \<open>smother({isSilent: true})\<close>
  returns the state unchanged too: nothing is called and nothing emitted. On an initialized
  App whose one-shot \<open>_unload\<close> has not been called before, \<open>smother\<close> without \<open>isSilent\<close>
  calls the registered end callback with the App and its config and then emits \<open>end\<close>
  (with no end callback registered it only emits \<open>end\<close>).
\<close>

theorem smother_behaviour:
  assumes "i < length (apps w)" and "a = apps w ! i"
  shows "(\<not> hasInitialized a \<longrightarrow> smother i opts w = Normal w) \<and>
     (hasInitialized a \<and> isSilent opts \<longrightarrow> smother i opts w = Normal w) \<and>
     (hasInitialized a \<and> \<not> isSilent opts \<and> \<not> unload_ran a \<and>
        endCall a = Fn n f \<and> f (config a) = Returns c \<longrightarrow>
        smother i opts w = Normal (w\<lparr>apps := (apps w)[i := a\<lparr>unload_ran := True, config := c\<rparr>],
          trace := trace w @ [Called i PEnd n (config a), Emit i ''end'' None True]\<rparr>)) \<and>
     (hasInitialized a \<and> \<not> isSilent opts \<and> \<not> unload_ran a \<and> \<not> is_truthy (endCall a) \<longrightarrow>
        smother i opts w = Normal (w\<lparr>apps := (apps w)[i := a\<lparr>unload_ran := True\<rparr>],
          trace := trace w @ [Emit i ''end'' None True]\<rparr>))"
proof (intro conjI impI)
  show "smother i opts w = Normal w" if "\<not> hasInitialized a"
    using that assms(2) by (simp add: smother_def)
  show "smother i opts w = Normal w" if "hasInitialized a \<and> isSilent opts"
    using that assms(2) by (simp add: smother_def)
  show "smother i opts w = Normal (w\<lparr>apps := (apps w)[i := a\<lparr>unload_ran := True, config := c\<rparr>],
          trace := trace w @ [Called i PEnd n (config a), Emit i ''end'' None True]\<rparr>)"
    if H: "hasInitialized a \<and> \<not> isSilent opts \<and> \<not> unload_ran a \<and>
        endCall a = Fn n f \<and> f (config a) = Returns c"
  proof -
    have N: "\<not> unload_ran (apps w ! i)" using H assms(2) by simp
    have "unload_local i (a\<lparr>unload_ran := True\<rparr>) =
        ([Called i PEnd n (config a), Emit i ''end'' None True],
         a\<lparr>unload_ran := True, config := c\<rparr>, None)"
      using H by (simp add: unload_local_def)
    then show ?thesis using H assms(2) unload_first [OF assms(1) N]
      by (simp add: smother_def)
  qed
  show "smother i opts w = Normal (w\<lparr>apps := (apps w)[i := a\<lparr>unload_ran := True\<rparr>],
          trace := trace w @ [Emit i ''end'' None True]\<rparr>)"
    if H: "hasInitialized a \<and> \<not> isSilent opts \<and> \<not> unload_ran a \<and> \<not> is_truthy (endCall a)"
  proof -
    have N: "\<not> unload_ran (apps w ! i)" using H assms(2) by simp
    have "unload_local i (a\<lparr>unload_ran := True\<rparr>) =
        ([Emit i ''end'' None True], a\<lparr>unload_ran := True\<rparr>, None)"
      using H by (simp add: unload_local_def)
    then show ?thesis using H assms(2) unload_first [OF assms(1) N]
      by (simp add: smother_def)
  qed
qed

theorem smother_behaviour_witness:
  "hasInitialized (apps page_started ! 0) \<and> \<not> unload_ran (apps page_started ! 0) \<and>
   smother 0 (Opts (Some True)) page_started = Normal page_started \<and>
   trace (world_of (smother 0 NoOpts page_started)) =
     trace page_started @ [Called 0 PEnd ''bye'' [], Emit 0 ''end'' None True] \<and>
   smother 0 NoOpts (run [NewApp True True] empty_world) = Normal (run [NewApp True True] empty_world)"
proof -
  let ?a = "apps page_started ! 0"
  have L: "0 < length (apps page_started)" by (simp add: page_started_eval)
  have H: "hasInitialized ?a" "\<not> unload_ran ?a" "endCall ?a = Fn ''bye'' (\<lambda>c. Returns c)"
    "config ?a = []"
    by (simp_all add: page_started_eval fresh_app_def bye_def)
  have L2: "0 < length (apps (run [NewApp True True] empty_world))" by (simp add: exec)
  have N2: "\<not> hasInitialized (apps (run [NewApp True True] empty_world) ! 0)" by (simp add: exec)
  from smother_behaviour [OF L refl, of "Opts (Some True)"] H
  have A: "smother 0 (Opts (Some True)) page_started = Normal page_started" by simp
  from smother_behaviour [OF L refl, of NoOpts "''bye''" "\<lambda>c. Returns c" "[]"] H
  have B: "trace (world_of (smother 0 NoOpts page_started)) =
     trace page_started @ [Called 0 PEnd ''bye'' [], Emit 0 ''end'' None True]" by simp
  from smother_behaviour [OF L2 refl, of NoOpts] N2
  have C: "smother 0 NoOpts (run [NewApp True True] empty_world) = Normal (run [NewApp True True] empty_world)"
    by simp
  show ?thesis using H A B C by blast
qed

text \<open>
  Claim C7. Take an App whose \<open>_initialize\<close> has not been called, in a state where the
  gating check passes. If a queued setup callback throws, after the callbacks \<open>pre\<close>
  queued before it returned, then the check throws the same exception; the trace has
  \<open>setup:before\<close>, the calls of \<open>pre\<close> and the call that threw, and nothing after it: the
  callbacks \<open>post\<close> queued behind it, the start callback and the three later events are
  skipped, and the queue is not cleared. If the setup callbacks return and the start
  callback throws, the check throws the same exception; the trace ends with the call of
  the start callback, \<open>start:after\<close> is not emitted and the start callback is not discarded.
  In both cases \<open>_hasInitialized\<close> is true afterwards, a further check changes nothing
  (the one shot is used, nothing is retried or rolled back), and \<open>ignite\<close> throws the same
  exception to its caller.
\<close>

theorem callback_failure:
  assumes "i < length (apps w)" and "a = apps w ! i" and "\<not> initialize_ran a"
    and "\<not> lockBarrier w > 0" and "isIgnited a \<or> isDocReady w"
    and "sc = (if is_truthy (startCall a) then startCall a else noop)"
  shows "(setupCalls a = pre @ Fn n f # post \<and>
          run_cbs i PSetup pre (config a) = (es, c1, None) \<and> f c1 = Throws e c2 \<longrightarrow>
          (let w' = w\<lparr>apps := (apps w)[i := a\<lparr>initialize_ran := True, startCall := sc,
                        hasInitialized := True, config := c2\<rparr>],
                      trace := trace w @ [Emit i ''setup:before'' (Some (config a)) True] @ es @
                        [Called i PSetup n c1]\<rparr>
           in check i w = Raised e w' \<and> hasInitialized (apps w' ! i) \<and>
              setupCalls (apps w' ! i) = pre @ Fn n f # post \<and>
              check i w' = Normal w' \<and> raised (ignite i w) = Some e)) \<and>
         (run_cbs i PSetup (setupCalls a) (config a) = (es, c1, None) \<and>
          sc = Fn n f \<and> f c1 = Throws e c2 \<longrightarrow>
          (let w' = w\<lparr>apps := (apps w)[i := a\<lparr>initialize_ran := True, startCall := Fn n f,
                        hasInitialized := True, setupCalls := [], config := c2\<rparr>],
                      trace := trace w @ [Emit i ''setup:before'' (Some (config a)) True] @ es @
                        [Emit i ''setup:after'' (Some c1) True,
                         Emit i ''start:before'' (Some c1) True, Called i PStart n c1]\<rparr>
           in check i w = Raised e w' \<and> hasInitialized (apps w' ! i) \<and>
              check i w' = Normal w' \<and> raised (ignite i w) = Some e))"
proof -
  let ?w1 = "upd_app i (\<lambda>a. a\<lparr>isIgnited := True\<rparr>) w"
  let ?a1 = "a\<lparr>isIgnited := True\<rparr>"
  have C: "check i w = initialize i w" using assms(2,4,5) by (simp add: check_def)
  have L1: "i < length (apps ?w1)" using assms(1) by simp
  have A1: "?a1 = apps ?w1 ! i" using assms(1,2) by simp
  have N1: "\<not> initialize_ran ?a1" using assms(3) by simp
  have G: "ignite i w = initialize i ?w1" using assms(1,4) by (simp add: ignite_def check_def)
  have S: "startCall ?a1 = startCall a" "setupCalls ?a1 = setupCalls a" "config ?a1 = config a"
    by simp_all
  have again: "check i w' = Normal w'" if "initialize_ran (apps w' ! i)" for w'
    using that by (simp add: check_def initialize_def)
  show ?thesis
  proof (intro conjI impI)
    assume H: "setupCalls a = pre @ Fn n f # post \<and>
          run_cbs i PSetup pre (config a) = (es, c1, None) \<and> f c1 = Throws e c2"
    then have H1: "setupCalls a = pre @ Fn n f # post"
      and H2: "run_cbs i PSetup pre (config a) = (es, c1, None)" and H3: "f c1 = Throws e c2"
      by simp_all
    note X = init_setup_throws [OF assms(1,2,3) H1 H2 H3]
    have Y: "raised (ignite i w) = Some e"
      using init_setup_throws [OF L1 A1 N1, of pre n f post es c1 e c2] H1 H2 H3
      by (simp add: G)
    show "let w' = w\<lparr>apps := (apps w)[i := a\<lparr>initialize_ran := True, startCall := sc,
                        hasInitialized := True, config := c2\<rparr>],
                      trace := trace w @ [Emit i ''setup:before'' (Some (config a)) True] @ es @
                        [Called i PSetup n c1]\<rparr>
           in check i w = Raised e w' \<and> hasInitialized (apps w' ! i) \<and>
              setupCalls (apps w' ! i) = pre @ Fn n f # post \<and>
              check i w' = Normal w' \<and> raised (ignite i w) = Some e"
      unfolding Let_def using X Y H1 assms(1,6) by (simp add: C again)
  next
    assume H: "run_cbs i PSetup (setupCalls a) (config a) = (es, c1, None) \<and>
          sc = Fn n f \<and> f c1 = Throws e c2"
    then have H1: "run_cbs i PSetup (setupCalls a) (config a) = (es, c1, None)"
      and H2: "(if is_truthy (startCall a) then startCall a else noop) = Fn n f"
      and H3: "f c1 = Throws e c2"
      using assms(6) by simp_all
    note X = init_start_throws [OF assms(1,2,3) H1 H2 H3]
    have H1': "run_cbs i PSetup (setupCalls ?a1) (config ?a1) = (es, c1, None)"
      using H1 by simp
    have H2': "(if is_truthy (startCall ?a1) then startCall ?a1 else noop) = Fn n f"
      using H2 by (cases "is_truthy (startCall a)") simp_all
    have Y: "raised (ignite i w) = Some e"
      using init_start_throws [OF L1 A1 N1 H1' H2' H3] by (simp add: G)
    show "let w' = w\<lparr>apps := (apps w)[i := a\<lparr>initialize_ran := True, startCall := Fn n f,
                        hasInitialized := True, setupCalls := [], config := c2\<rparr>],
                      trace := trace w @ [Emit i ''setup:before'' (Some (config a)) True] @ es @
                        [Emit i ''setup:after'' (Some c1) True,
                         Emit i ''start:before'' (Some c1) True, Called i PStart n c1]\<rparr>
           in check i w = Raised e w' \<and> hasInitialized (apps w' ! i) \<and>
              check i w' = Normal w' \<and> raised (ignite i w) = Some e"
      unfolding Let_def using X Y assms(1) by (simp add: C again)
  qed
qed

theorem callback_failure_witness:
  "\<not> initialize_ran (apps page_bad_setup ! 0) \<and>
   raised (check 0 page_bad_setup) = Some (UserError ''boom'') \<and>
   trace (world_of (check 0 page_bad_setup)) =
     [Emit 0 ''setup:before'' (Some []) True, Called 0 PSetup ''s1'' [],
      Called 0 PSetup ''bad'' [(''a'', JNum 1)]] \<and>
   hasInitialized (apps (world_of (check 0 page_bad_setup)) ! 0) \<and>
   \<not> initialize_ran (apps page_bad_start ! 0) \<and>
   raised (check 0 page_bad_start) = Some (UserError ''boom'') \<and>
   trace (world_of (check 0 page_bad_start)) =
     [Emit 0 ''setup:before'' (Some []) True, Called 0 PSetup ''s1'' [],
      Emit 0 ''setup:after'' (Some [(''a'', JNum 1)]) True,
      Emit 0 ''start:before'' (Some [(''a'', JNum 1)]) True,
      Called 0 PStart ''bad'' [(''a'', JNum 1)]]"
proof -
  let ?f = "\<lambda>c. Throws (UserError ''boom'') (AList.update ''half'' JNull c)"
  have P1: "page_bad_setup = \<lparr>apps = [(fresh_app False True)\<lparr>setupCalls := [s1, bad, s2],
        startCall := go\<rparr>], isDocReady = True, lockBarrier = 0, onDocumentReady = [],
        onWindowUnload = [0], trace = []\<rparr>"
    by (simp add: page_bad_setup_def exec s1_def s2_def bad_def go_def)
  have P2: "page_bad_start = \<lparr>apps = [(fresh_app False True)\<lparr>setupCalls := [s1],
        startCall := bad\<rparr>], isDocReady = True, lockBarrier = 0, onDocumentReady = [],
        onWindowUnload = [0], trace = []\<rparr>"
    by (simp add: page_bad_start_def exec s1_def bad_def)
  have A: "0 < length (apps page_bad_setup)" "\<not> initialize_ran (apps page_bad_setup ! 0)"
    "\<not> lockBarrier page_bad_setup > 0"
    "isIgnited (apps page_bad_setup ! 0) \<or> isDocReady page_bad_setup"
    "go = (if is_truthy (startCall (apps page_bad_setup ! 0))
           then startCall (apps page_bad_setup ! 0) else noop)"
    "setupCalls (apps page_bad_setup ! 0) = [s1] @ Fn ''bad'' ?f # [s2]"
    "run_cbs 0 PSetup [s1] (config (apps page_bad_setup ! 0)) =
       ([Called 0 PSetup ''s1'' []], [(''a'', JNum 1)], None)"
    "?f [(''a'', JNum 1)] = Throws (UserError ''boom'') [(''a'', JNum 1), (''half'', JNull)]"
    by (simp_all add: P1 fresh_app_def s1_def bad_def go_def)
  have B: "0 < length (apps page_bad_start)" "\<not> initialize_ran (apps page_bad_start ! 0)"
    "\<not> lockBarrier page_bad_start > 0"
    "isIgnited (apps page_bad_start ! 0) \<or> isDocReady page_bad_start"
    "bad = (if is_truthy (startCall (apps page_bad_start ! 0))
           then startCall (apps page_bad_start ! 0) else noop)"
    "run_cbs 0 PSetup (setupCalls (apps page_bad_start ! 0)) (config (apps page_bad_start ! 0)) =
       ([Called 0 PSetup ''s1'' []], [(''a'', JNum 1)], None)"
    "bad = Fn ''bad'' ?f"
    "?f [(''a'', JNum 1)] = Throws (UserError ''boom'') [(''a'', JNum 1), (''half'', JNull)]"
    by (simp_all add: P2 fresh_app_def s1_def bad_def)
  from callback_failure [OF A(1) refl A(2,3,4,5), of "[s1]" "''bad''" ?f "[s2]"
      "[Called 0 PSetup ''s1'' []]" "[(''a'', JNum 1)]" "UserError ''boom''"
      "[(''a'', JNum 1), (''half'', JNull)]"] A(6,7,8)
  have R1: "raised (check 0 page_bad_setup) = Some (UserError ''boom'') \<and>
    trace (world_of (check 0 page_bad_setup)) =
     [Emit 0 ''setup:before'' (Some []) True, Called 0 PSetup ''s1'' [],
      Called 0 PSetup ''bad'' [(''a'', JNum 1)]] \<and>
    hasInitialized (apps (world_of (check 0 page_bad_setup)) ! 0)"
    by (simp add: Let_def P1 fresh_app_def)
  from callback_failure [OF B(1) refl B(2,3,4,5), of "[]" "''bad''" ?f "[]"
      "[Called 0 PSetup ''s1'' []]" "[(''a'', JNum 1)]" "UserError ''boom''"
      "[(''a'', JNum 1), (''half'', JNull)]"] B(6,7,8)
  have R2: "raised (check 0 page_bad_start) = Some (UserError ''boom'') \<and>
    trace (world_of (check 0 page_bad_start)) =
     [Emit 0 ''setup:before'' (Some []) True, Called 0 PSetup ''s1'' [],
      Emit 0 ''setup:after'' (Some [(''a'', JNum 1)]) True,
      Emit 0 ''start:before'' (Some [(''a'', JNum 1)]) True,
      Called 0 PStart ''bad'' [(''a'', JNum 1)]]"
    by (simp add: Let_def P2 fresh_app_def)
  show ?thesis using A(2) B(2) R1 R2 by blast
qed

text \<open>
  Claim C8. \<open>App.unlock\<close> always leaves the counter one lower than it found it, also at
  zero and below, and prints no diagnostic; called \<open>n\<close> times on the module as loaded it
  leaves the counter at \<open>-n\<close> and nothing else changed. The gating check with a counter
  at or below zero initializes the App when it is ignited or the document is ready; with
  a negative counter it does what it does with the counter at zero, the counter apart.
\<close>

theorem unlock_below_zero:
  "lockBarrier (world_of (unlock w)) = lockBarrier w - 1 \<and>
   filter is_console (trace (world_of (unlock w))) = filter is_console (trace w) \<and>
   run (replicate n Unlock) loaded = loaded\<lparr>lockBarrier := - int n\<rparr> \<and>
   (lockBarrier w \<le> 0 \<longrightarrow>
      check i w = (if isIgnited (apps w ! i) \<or> isDocReady w then initialize i w else Normal w)) \<and>
   (lockBarrier w < 0 \<and> i < length (apps w) \<longrightarrow>
      world_of (check i w) = (world_of (check i (w\<lparr>lockBarrier := 0\<rparr>)))\<lparr>lockBarrier := lockBarrier w\<rparr> \<and>
      raised (check i w) = raised (check i (w\<lparr>lockBarrier := 0\<rparr>)))"
proof (intro conjI impI)
  have "set [0 ..< length (apps w)] \<subseteq> {..< length (apps (w\<lparr>lockBarrier := lockBarrier w - 1\<rparr>))}"
    by auto
  from runChecks_frame [OF this]
  show "lockBarrier (world_of (unlock w)) = lockBarrier w - 1"
    by (simp add: unlock_def runChecks_def)
  show "filter is_console (trace (world_of (unlock w))) = filter is_console (trace w)"
    by (simp add: unlock_def runChecks_no_console)
  show "run (replicate n Unlock) loaded = loaded\<lparr>lockBarrier := - int n\<rparr>"
    using unlocks_loaded [of n 0] by (simp add: loaded_eval)
  show "check i w = (if isIgnited (apps w ! i) \<or> isDocReady w then initialize i w else Normal w)"
    if "lockBarrier w \<le> 0" using that by (simp add: check_def)
  assume H: "lockBarrier w < 0 \<and> i < length (apps w)"
  then have L: "i < length (apps w)" by simp
  have "X\<lparr>lockBarrier := lockBarrier X\<rparr> = X" for X :: world by simp
  from this [of "world_of (initialize i w)"] initialize_frame [OF L]
  have W: "(world_of (initialize i w))\<lparr>lockBarrier := lockBarrier w\<rparr> = world_of (initialize i w)"
    by simp
  show "world_of (check i w) = (world_of (check i (w\<lparr>lockBarrier := 0\<rparr>)))\<lparr>lockBarrier := lockBarrier w\<rparr>"
    using H initialize_lock_free [OF L, of 0] W by (simp add: check_def)
  show "raised (check i w) = raised (check i (w\<lparr>lockBarrier := 0\<rparr>))"
    using H initialize_lock_free [OF L, of 0] by (simp add: check_def)
qed

theorem unlock_below_zero_witness:
  "lockBarrier page_overunlocked = - 2 \<and> 0 < length (apps page_overunlocked) \<and>
   \<not> hasInitialized (apps page_overunlocked ! 0) \<and>
   world_of (ignite 0 page_overunlocked) =
     (world_of (ignite 0 (page_overunlocked\<lparr>lockBarrier := 0\<rparr>)))\<lparr>lockBarrier := - 2\<rparr> \<and>
   hasInitialized (apps (world_of (ignite 0 page_overunlocked)) ! 0)"
proof -
  let ?w = "upd_app 0 (\<lambda>a. a\<lparr>isIgnited := True\<rparr>) page_overunlocked"
  have P: "page_overunlocked = \<lparr>apps = [fresh_app False False], isDocReady = False,
      lockBarrier = - 2, onDocumentReady = [], onWindowUnload = [], trace = []\<rparr>"
    by (simp add: page_overunlocked_def exec)
  have A: "lockBarrier ?w < 0 \<and> 0 < length (apps ?w)" "lockBarrier ?w \<le> 0"
    by (simp_all add: P)
  from unlock_below_zero [of ?w 0 0] A
  have 1: "world_of (check 0 ?w) = (world_of (check 0 (?w\<lparr>lockBarrier := 0\<rparr>)))\<lparr>lockBarrier := lockBarrier ?w\<rparr>"
    and 2: "check 0 ?w = (if isIgnited (apps ?w ! 0) \<or> isDocReady ?w then initialize 0 ?w else Normal ?w)"
    by blast+
  have 3: "hasInitialized (apps (world_of (initialize 0 ?w)) ! 0)"
    by (simp add: P exec)
  have "hasInitialized (apps (world_of (check 0 ?w)) ! 0)" unfolding 2 using 3 by (simp add: P)
  moreover have "ignite 0 page_overunlocked = check 0 ?w" by (simp add: ignite_def)
  moreover have "ignite 0 (page_overunlocked\<lparr>lockBarrier := 0\<rparr>) = check 0 (?w\<lparr>lockBarrier := 0\<rparr>)"
    by (simp add: ignite_def upd_app_def P)
  moreover have "lockBarrier ?w = - 2" by (simp add: P)
  ultimately show ?thesis using 1 by (simp add: P fresh_app_def)
qed

text \<open>
  Claim C9, at a failing input. An App with \<open>autoEnd\<close> and a registered end callback is
  constructed; the window announces its unloading before the App is initialized; then the
  App is ignited. The App is now initialized and has never ended. The silent \<open>smother\<close>
  changes nothing, as the claim says; but after it neither \<open>smother()\<close> nor a further
  unload event of the window calls the end callback or emits \<open>end\<close>: the call of the
  one-shot \<open>_unload\<close> before the initialization returned at the guard of line 267, and it
  was the one shot. Without the early event the same steps call the end callback once and
  emit \<open>end\<close> once.
\<close>

theorem silent_smother_after_early_unload:
  "hasInitialized (apps page_unloaded_early ! 0) \<and>
   autoEnd (apps page_unloaded_early ! 0) \<and>
   endCall (apps page_unloaded_early ! 0) = bye \<and>
   called 0 PEnd (trace page_unloaded_early) = 0 \<and>
   emitted 0 ''end'' (trace page_unloaded_early) = 0 \<and>
   run [Smother 0 (Opts (Some True))] page_unloaded_early = page_unloaded_early \<and>
   called 0 PEnd (trace (run [Smother 0 (Opts (Some True)), Smother 0 NoOpts, WindowUnload]
     page_unloaded_early)) = 0 \<and>
   emitted 0 ''end'' (trace (run [Smother 0 (Opts (Some True)), Smother 0 NoOpts, WindowUnload]
     page_unloaded_early)) = 0 \<and>
   called 0 PEnd (trace (run [Smother 0 (Opts (Some True)), Smother 0 NoOpts, WindowUnload]
     page_started)) = 1 \<and>
   emitted 0 ''end'' (trace (run [Smother 0 (Opts (Some True)), Smother 0 NoOpts, WindowUnload]
     page_started)) = 1"
  by (simp add: page_unloaded_early_def page_started_def exec bye_def)

text \<open>
  Claim C10. In a state that a run reaches, take an App that is initialized. Then
  \<open>start(func)\<close> returns normally and stores \<open>func\<close> in \<open>startCall\<close>; when \<open>func\<close> is a
  function nothing is written to the trace, so there is no diagnostic. Whatever actions
  follow, the App calls no start callback any more: the number of its start calls in the
  trace stays what it was, which is at most one. And whenever the one-shot \<open>_initialize\<close>
  returns normally, it leaves \<open>startCall\<close> at \<open>null\<close>: the callback it called is discarded.
\<close>

theorem late_start_is_lost:
  assumes "w = run acts empty_world" and "i < length (apps w)"
    and "hasInitialized (apps w ! i)"
  shows "start_app i func w = Normal (run [Start i func] w) \<and>
     startCall (apps (run [Start i func] w) ! i) = func \<and>
     (isFunction func \<longrightarrow> trace (run [Start i func] w) = trace w) \<and>
     (\<forall>more. called i PStart (trace (run (Start i func # more) w)) = called i PStart (trace w)) \<and>
     called i PStart (trace w) \<le> 1 \<and>
     (\<forall>w0 w1. i < length (apps w0) \<and> \<not> initialize_ran (apps w0 ! i) \<and>
        initialize i w0 = Normal w1 \<longrightarrow> startCall (apps w1 ! i) = NotFn JNull)"
proof -
  let ?w' = "run [Start i func] w"
  have I: "inv w" unfolding assms(1) by (rule run_inv)
  have OK: "app_ok i (apps w ! i) (trace w)" using I assms(2) by (simp add: inv_def)
  have R: "initialize_ran (apps w ! i)" using OK assms(3) by (simp add: app_ok_def)
  have LO: "listeners_ok w" using I by (simp add: inv_def)
  have 1: "start_app i func w = Normal ?w'"
    using assms(2) by (simp add: on_app_def start_app_def Let_def)
  have 2: "startCall (apps ?w' ! i) = func"
    using assms(2) by (simp add: on_app_def start_app_def Let_def)
  have 3: "trace ?w' = trace w" if "isFunction func"
    using that assms(2) by (simp add: on_app_def start_app_def Let_def)
  have M: "moves w ?w'" using run_moves [OF LO] .
  have I': "inv ?w'" using moves_inv [OF M I] .
  have K: "keeps i w ?w'" using moves_keeps [OF M assms(2)] .
  then have L': "i < length (apps ?w')" and R': "initialize_ran (apps ?w' ! i)"
    and C': "called i PStart (trace ?w') = called i PStart (trace w)"
    using R by (simp_all add: keeps_def)
  have 4: "called i PStart (trace (run (Start i func # more) w)) = called i PStart (trace w)" for more
  proof -
    have "keeps i ?w' (run more ?w')" using run_keeps [OF I' L'] .
    then have "called i PStart (trace (run more ?w')) = called i PStart (trace ?w')"
      using R' by (simp add: keeps_def)
    then show ?thesis using C' by simp
  qed
  have 5: "called i PStart (trace w) \<le> 1" using OK by (simp add: app_ok_def)
  have 6: "startCall (apps w1 ! i) = NotFn JNull"
    if H: "i < length (apps w0) \<and> \<not> initialize_ran (apps w0 ! i) \<and> initialize i w0 = Normal w1"
    for w0 w1
  proof -
    obtain es a' r where L: "init_local i ((apps w0 ! i)\<lparr>initialize_ran := True\<rparr>) = (es, a', r)"
      by (metis prod_cases3)
    have H1: "i < length (apps w0)" and H2: "\<not> initialize_ran (apps w0 ! i)"
      and H3: "initialize i w0 = Normal w1" using H by simp_all
    have E: "lift i (es, a', r) w0 = Normal w1"
      using initialize_first [OF H1 H2] L H3 by simp
    then have N: "r = None" by (cases r) simp_all
    then have "startCall a' = NotFn JNull"
      using L by (auto simp: init_local_def Let_def split: prod.splits option.splits)
    then show ?thesis using E N H1 by auto
  qed
  show ?thesis using 1 2 3 4 5 6 by blast
qed

theorem late_start_is_lost_witness:
  "hasInitialized (apps page_started ! 0) \<and>
   startCall (apps page_started ! 0) = NotFn JNull \<and>
   startCall (apps (run [Start 0 go] page_started) ! 0) = go \<and>
   called 0 PStart (trace (run [Start 0 go, Ignite 0, DocumentReady, Lock, Unlock] page_started)) = 1"
proof -
  have 1: "page_started = run [NewApp True True, End 0 bye, Ignite 0] empty_world"
    by (simp add: page_started_def)
  have 2: "0 < length (apps page_started)" by (simp add: page_started_eval)
  have 3: "hasInitialized (apps page_started ! 0)" by (simp add: page_started_eval)
  have 4: "called 0 PStart (trace page_started) = 1" by (simp add: page_started_eval)
  have 5: "startCall (apps page_started ! 0) = NotFn JNull"
    by (simp add: page_started_eval fresh_app_def)
  from late_start_is_lost [OF 1 2 3, of go]
  have A: "startCall (apps (run [Start 0 go] page_started) ! 0) = go"
    and B: "\<forall>more. called 0 PStart (trace (run (Start 0 go # more) page_started)) =
        called 0 PStart (trace page_started)"
    by blast+
  from B have "called 0 PStart (trace (run (Start 0 go # [Ignite 0, DocumentReady, Lock, Unlock])
      page_started)) = called 0 PStart (trace page_started)" by blast
  then show ?thesis using A 3 4 5 by simp
qed

end
